theory Spec2Isabelle
  imports Main "HOL-Library.Word" "HOL-Library.AList" "HOL-Library.Multiset"
begin

section \<open>Gimme-iPhotos: the downloader (src/downloader.py)\<close>

text \<open>
  A shallow embedding of \<^verbatim>\<open>DownloaderApp\<close>: \<^verbatim>\<open>download_photos\<close>, \<^verbatim>\<open>remove_missing\<close>,
  \<^verbatim>\<open>_copyfileobj\<close> and \<^verbatim>\<open>run\<close>. The Python methods act on the file system, on the
  terminal and on network streams; here these are fields of an explicit \<open>world\<close> that
  every function takes and returns. An exception is the value \<open>Raise e\<close>, returned
  together with the world as the exception leaves it.
\<close>

subsection \<open>Values, errors, results\<close>

type_synonym byte = "8 word"
type_synonym path = string

datatype error =
    DownloadError          \<comment> \<open>\<^verbatim>\<open>photo.download()\<close> raised\<close>
  | ReadError              \<comment> \<open>\<^verbatim>\<open>fsrc.read\<close> raised in the middle of a stream\<close>
  | ListingError           \<comment> \<open>iterating \<^verbatim>\<open>api.photos.all\<close> raised\<close>
  | ConnectError           \<comment> \<open>\<^verbatim>\<open>connect_to_icloud\<close> raised\<close>
  | IsADirectoryError
  | NotADirectoryError
  | FileNotFoundError
  | TooManyLinks           \<comment> \<open>OSError ELOOP\<close>
  | Abort                  \<comment> \<open>\<^verbatim>\<open>click.Abort\<close>, raised by \<^verbatim>\<open>click.confirm\<close> at end of input\<close>

datatype 'a result = Ok 'a | Raise error

text \<open>Configuration values are strings, booleans or \<^verbatim>\<open>None\<close>; \<^verbatim>\<open>if v:\<close> tests truthiness.\<close>

datatype pyval = PStr string | PBool bool | PNone

fun truthy :: "pyval \<Rightarrow> bool" where
  "truthy (PStr s) = (s \<noteq> [])"
| "truthy (PBool b) = b"
| "truthy PNone = False"

subsection \<open>The file system\<close>

text \<open>
  The file system is an association list from path strings to nodes, read through
  \<open>map_of\<close>. Paths are compared as strings, as the program compares them
  (\<^verbatim>\<open>entry.path not in icloud_photos\<close>). Symbolic links are followed in the last
  component of a path only, at most 40 times (the kernel's limit); directories are
  not reached through links, and device files, permissions and a full disk are not
  modelled.
\<close>

datatype node = RegularFile "byte list" | Directory | Symlink path

type_synonym filesystem = "(path \<times> node) list"

text \<open>\<^verbatim>\<open>os.path.join(a, b)\<close> of posixpath, for two arguments.\<close>

definition path_join :: "path \<Rightarrow> path \<Rightarrow> path" where
  "path_join a b =
     (if b \<noteq> [] \<and> hd b = CHR ''/'' then b
      else if a = [] \<or> last a = CHR ''/'' then a @ b
      else a @ ''/'' @ b)"

text \<open>\<^verbatim>\<open>os.path.dirname(p)\<close> of posixpath.\<close>

definition dirname :: "path \<Rightarrow> path" where
  "dirname p =
     (let head = rev (dropWhile (\<lambda>c. c \<noteq> CHR ''/'') (rev p))
      in if head \<noteq> [] \<and> \<not> list_all (\<lambda>c. c = CHR ''/'') head
         then rev (dropWhile (\<lambda>c. c = CHR ''/'') (rev head))
         else head)"

text \<open>Following the symbolic links at a path, \<open>n\<close> more times at most.\<close>

fun follow :: "filesystem \<Rightarrow> nat \<Rightarrow> path \<Rightarrow> path result" where
  "follow fs 0 p =
     (case map_of fs p of
        Some (Symlink t) \<Rightarrow> Raise TooManyLinks
      | _ \<Rightarrow> Ok p)"
| "follow fs (Suc n) p =
     (case map_of fs p of
        Some (Symlink t) \<Rightarrow> follow fs n (path_join (dirname p) t)
      | _ \<Rightarrow> Ok p)"

definition max_symlinks :: nat where
  "max_symlinks = 40"

text \<open>\<^verbatim>\<open>os.path.isfile(p)\<close>: a regular file, after following links; False on any error.\<close>

definition isfile :: "filesystem \<Rightarrow> path \<Rightarrow> bool" where
  "isfile fs p =
     (case follow fs max_symlinks p of
        Raise e \<Rightarrow> False
      | Ok q \<Rightarrow> (case map_of fs q of Some (RegularFile c) \<Rightarrow> True | _ \<Rightarrow> False))"

text \<open>
  \<^verbatim>\<open>open(p, "wb")\<close>: creates or truncates the file the path leads to and returns the
  path written to, with the new file system.
\<close>

definition open_wb :: "filesystem \<Rightarrow> path \<Rightarrow> (path \<times> filesystem) result" where
  "open_wb fs p =
     (case follow fs max_symlinks p of
        Raise e \<Rightarrow> Raise e
      | Ok q \<Rightarrow>
          (case map_of fs q of
             Some Directory \<Rightarrow> Raise IsADirectoryError
           | Some (Symlink t) \<Rightarrow> Raise TooManyLinks
           | Some (RegularFile c) \<Rightarrow> Ok (q, AList.update q (RegularFile []) fs)
           | None \<Rightarrow>
               if q = [] then Raise FileNotFoundError
               else if last q = CHR ''/'' then Raise IsADirectoryError
               else if map_of fs (dirname q) = Some Directory
               then Ok (q, AList.update q (RegularFile []) fs)
               else Raise FileNotFoundError))"

text \<open>\<^verbatim>\<open>os.DirEntry\<close>: name, path and the kind of the entry itself (links not followed).\<close>

record dir_entry =
  entry_name :: string
  entry_path :: path
  entry_node :: node

text \<open>\<^verbatim>\<open>entry.is_file(follow_symlinks=False)\<close>.\<close>

definition is_file :: "dir_entry \<Rightarrow> bool" where
  "is_file e = (case entry_node e of RegularFile c \<Rightarrow> True | _ \<Rightarrow> False)"

text \<open>The name of \<open>p\<close> as a direct child of the directory \<open>d\<close>, if it is one.\<close>

definition child_name :: "path \<Rightarrow> path \<Rightarrow> string option" where
  "child_name d p =
     (let prefix = (if last d = CHR ''/'' then d else d @ ''/'');
          name = drop (length prefix) p
      in if take (length prefix) p = prefix \<and> name \<noteq> [] \<and> CHR ''/'' \<notin> set name
         then Some name else None)"

text \<open>
  What a scan of \<open>d\<close> yields for the path \<open>p\<close>: its entry, with path \<open>join(d, name)\<close>,
  when \<open>p\<close> exists and lies directly in \<open>d\<close>; nothing otherwise.
\<close>

definition entry_at :: "filesystem \<Rightarrow> path \<Rightarrow> path \<Rightarrow> dir_entry list" where
  "entry_at fs d p =
     (case (child_name d p, map_of fs p) of
        (Some name, Some nd) \<Rightarrow>
          [\<lparr>entry_name = name, entry_path = path_join d name, entry_node = nd\<rparr>]
      | _ \<Rightarrow> [])"

text \<open>\<^verbatim>\<open>os.scandir(d)\<close>: the entries directly in \<open>d\<close>.\<close>

definition scandir :: "filesystem \<Rightarrow> path \<Rightarrow> dir_entry list result" where
  "scandir fs d =
     (if d = [] then Raise FileNotFoundError
      else case map_of fs d of
        None \<Rightarrow> Raise FileNotFoundError
      | Some (RegularFile c) \<Rightarrow> Raise NotADirectoryError
      | Some (Symlink t) \<Rightarrow> Raise NotADirectoryError
      | Some Directory \<Rightarrow> Ok (concat (map (entry_at fs d) (remdups (map fst fs)))))"

text \<open>\<^verbatim>\<open>os.unlink(p)\<close>: removes the entry at \<open>p\<close> itself.\<close>

definition unlink :: "filesystem \<Rightarrow> path \<Rightarrow> filesystem result" where
  "unlink fs p =
     (case map_of fs p of
        None \<Rightarrow> Raise FileNotFoundError
      | Some Directory \<Rightarrow> Raise IsADirectoryError
      | Some nd \<Rightarrow> Ok (AList.delete p fs))"

subsection \<open>The world\<close>

text \<open>What \<^verbatim>\<open>print\<close> and \<^verbatim>\<open>click.confirm\<close> write to the terminal.\<close>

datatype printed =
    DownloadingAll path bool     \<comment> \<open>"Downloading all photos into '{}' while {} existing"\<close>
  | Summary int int int int      \<comment> \<open>"Downloaded: {} | Skipped: {} | Overwritten: {} | Total: {}"\<close>
  | CheckingMissing              \<comment> \<open>"Checking for missing photos"\<close>
  | NothingToDo                  \<comment> \<open>"Nothing to do."\<close>
  | MissingPhotos nat            \<comment> \<open>"Missing photos ({}):"\<close>
  | EntryName string             \<comment> \<open>a tab and the entry's name\<close>
  | ConfirmPrompt                \<comment> \<open>"Proceed with removal?"\<close>
  | Dot                          \<comment> \<open>"."\<close>
  | Removed nat                  \<comment> \<open>"Removed {} files"\<close>

text \<open>The records of \<^verbatim>\<open>self.logger\<close>.\<close>

datatype log_record =
    SkippingExisting string
  | OverwritingExisting string
  | Downloading string
  | IcloudPhotos "path set"
  | ConsideredForRemoval string
  | AbortRemoval
  | Connecting

text \<open>
  Open handles: a file opened for writing, and the response of \<^verbatim>\<open>photo.download()\<close>.
  The world holds the multiset of the handles that are open.
\<close>

datatype handle = Sink path | Source string

record world =
  fs :: filesystem
  stdout :: "printed list"
  logged :: "log_record list"
  handles :: "handle multiset"
  progress :: "nat list"        \<comment> \<open>the arguments of the calls of \<^verbatim>\<open>t.update\<close>\<close>

definition print :: "printed \<Rightarrow> world \<Rightarrow> world" where
  "print x w = w\<lparr>stdout := stdout w @ [x]\<rparr>"

text \<open>
  \<^verbatim>\<open>__init__\<close> sets the logger's level from the count of \<^verbatim>\<open>-v\<close> flags; DEBUG is 10,
  INFO 20, ERROR 40, CRITICAL 50.
\<close>

definition logger_level :: "int \<Rightarrow> int" where
  "logger_level verbose =
     (let level = 50 - (verbose - 1) * 10
      in if level < 10 then 40 else min level 50)"

definition log_debug :: "int \<Rightarrow> log_record \<Rightarrow> world \<Rightarrow> world" where
  "log_debug lvl r w = (if lvl \<le> 10 then w\<lparr>logged := logged w @ [r]\<rparr> else w)"

definition log_info :: "int \<Rightarrow> log_record \<Rightarrow> world \<Rightarrow> world" where
  "log_info lvl r w = (if lvl \<le> 20 then w\<lparr>logged := logged w @ [r]\<rparr> else w)"

subsection \<open>Remote items and streams\<close>

text \<open>
  One call of \<^verbatim>\<open>fsrc.read(length)\<close> returns bytes or raises; a stream is the list of
  what its successive reads return, and reads past the end of the list return
  \<^verbatim>\<open>b''\<close>.
\<close>

datatype read_result = Chunk "byte list" | ReadFailure

type_synonym stream = "read_result list"

record photo =
  filename :: string
  photo_size :: int
  download :: "stream result"     \<comment> \<open>what \<^verbatim>\<open>photo.download()\<close> does: a response, or an exception\<close>

record api =
  photos_all :: "photo list"      \<comment> \<open>the items \<^verbatim>\<open>api.photos.all\<close> yields\<close>
  listing_fails :: bool           \<comment> \<open>the iteration raises after yielding them\<close>

subsection \<open>Copying a stream\<close>

text \<open>
  \<^verbatim>\<open>shutil.copyfileobj(fsrc, fdst)\<close>: read and write until a read returns no bytes. The
  second argument is what the sink holds so far; the result carries what it holds
  when the copy returns or raises.
\<close>

fun shutil_copyfileobj :: "stream \<Rightarrow> byte list \<Rightarrow> unit result \<times> byte list" where
  "shutil_copyfileobj [] dst = (Ok (), dst)"
| "shutil_copyfileobj (ReadFailure # rest) dst = (Raise ReadError, dst)"
| "shutil_copyfileobj (Chunk buf # rest) dst =
     (if buf = [] then (Ok (), dst) else shutil_copyfileobj rest (dst @ buf))"

text \<open>
  Modelled from the spec: \<^verbatim>\<open>utils.Copy.fileobj\<close> is imported by downloader.py and is
  not among the sources. The spec's Transfer Copier streams the source to the sink in
  chunks and reports progress through a callback after each chunk; the declared size
  takes no part. The third argument collects the callback's arguments.
\<close>

fun Copy_fileobj :: "stream \<Rightarrow> byte list \<Rightarrow> nat list \<Rightarrow> unit result \<times> byte list \<times> nat list" where
  "Copy_fileobj [] dst ups = (Ok (), dst, ups)"
| "Copy_fileobj (ReadFailure # rest) dst ups = (Raise ReadError, dst, ups)"
| "Copy_fileobj (Chunk buf # rest) dst ups =
     (if buf = [] then (Ok (), dst, ups)
      else Copy_fileobj rest (dst @ buf) (ups @ [length buf]))"

text \<open>
  \<^verbatim>\<open>_copyfileobj(fsrc, fdst, size, desc)\<close>: without a progress bar when the logger is at
  INFO or below or the size is not positive, with one otherwise.
\<close>

definition copyfileobj :: "int \<Rightarrow> stream \<Rightarrow> byte list \<Rightarrow> int \<Rightarrow> string
    \<Rightarrow> unit result \<times> byte list \<times> nat list" where
  "copyfileobj lvl fsrc fdst sz desc =
     (if lvl \<le> 20 \<or> sz \<le> 0
      then (case shutil_copyfileobj fsrc fdst of (r, dst) \<Rightarrow> (r, dst, []))
      else Copy_fileobj fsrc fdst [])"

subsection \<open>download_photos\<close>

text \<open>The local variables of \<^verbatim>\<open>download_photos\<close> that the loop updates.\<close>

record locals =
  downloaded_count :: int
  overwritten_count :: int
  skipped_count :: int
  total_count :: int
  icloud_photos :: "path set"

text \<open>
  Lines 181 to 184: \<^verbatim>\<open>photo.download()\<close>, then the \<^verbatim>\<open>with open(filename, "wb")\<close>
  block around \<^verbatim>\<open>_copyfileobj\<close>. Leaving the block, normally or by an exception,
  closes the file, which then holds what was written. Nothing closes the response.
\<close>

definition transfer :: "int \<Rightarrow> path \<Rightarrow> photo \<Rightarrow> world \<Rightarrow> unit result \<times> world" where
  "transfer lvl fname ph w =
     (case download ph of
        Raise e \<Rightarrow> (Raise e, w)
      | Ok raw \<Rightarrow>
          (let w1 = w\<lparr>handles := add_mset (Source (filename ph)) (handles w)\<rparr>
           in case open_wb (fs w1) fname of
                Raise e \<Rightarrow> (Raise e, w1)
              | Ok (q, fs') \<Rightarrow>
                  (let w2 = w1\<lparr>fs := fs', handles := add_mset (Sink fname) (handles w1)\<rparr>;
                       w3 = log_debug lvl (Downloading (filename ph)) w2
                   in case copyfileobj lvl raw [] (photo_size ph) (filename ph) of
                        (r, content, ups) \<Rightarrow>
                          (r, w3\<lparr>fs := AList.update q (RegularFile content) (fs w3),
                                 handles := handles w3 - {#Sink fname#},
                                 progress := progress w3 @ ups\<rparr>))))"

text \<open>Lines 181 to 185: the transfer, then \<^verbatim>\<open>downloaded_count += 1\<close>.\<close>

definition download_and_count :: "int \<Rightarrow> path \<Rightarrow> photo \<Rightarrow> locals \<times> world \<Rightarrow> locals result \<times> world" where
  "download_and_count lvl fname ph lw =
     (case lw of (l, w) \<Rightarrow>
        (case transfer lvl fname ph w of
           (Raise e, w') \<Rightarrow> (Raise e, w')
         | (Ok u, w') \<Rightarrow> (Ok (l\<lparr>downloaded_count := downloaded_count l + 1\<rparr>), w')))"

text \<open>The body of the loop, lines 170 to 185, for one photo.\<close>

definition photo_iteration :: "int \<Rightarrow> path \<Rightarrow> bool \<Rightarrow> photo \<Rightarrow> locals \<times> world \<Rightarrow> locals result \<times> world" where
  "photo_iteration lvl destination overwrite_existing ph lw =
     (case lw of (l, w) \<Rightarrow>
        (let l1 = l\<lparr>total_count := total_count l + 1\<rparr>;
             fname = path_join destination (filename ph);
             l2 = l1\<lparr>icloud_photos := insert fname (icloud_photos l1)\<rparr>
         in if isfile (fs w) fname then
              (if \<not> overwrite_existing then
                 (Ok (l2\<lparr>skipped_count := skipped_count l2 + 1\<rparr>),
                  log_debug lvl (SkippingExisting (filename ph)) w)
               else
                 download_and_count lvl fname ph
                   (l2\<lparr>overwritten_count := overwritten_count l2 + 1\<rparr>,
                    log_debug lvl (OverwritingExisting (filename ph)) w))
            else download_and_count lvl fname ph (l2, w)))"

text \<open>The loop over the collection; an exception in one iteration ends it.\<close>

fun photos_loop :: "int \<Rightarrow> path \<Rightarrow> bool \<Rightarrow> photo list \<Rightarrow> locals \<times> world \<Rightarrow> locals result \<times> world" where
  "photos_loop lvl destination overwrite_existing [] lw = (Ok (fst lw), snd lw)"
| "photos_loop lvl destination overwrite_existing (ph # rest) lw =
     (case photo_iteration lvl destination overwrite_existing ph lw of
        (Raise e, w') \<Rightarrow> (Raise e, w')
      | (Ok l', w') \<Rightarrow> photos_loop lvl destination overwrite_existing rest (l', w'))"

definition initial_locals :: locals where
  "initial_locals =
     \<lparr>downloaded_count = 0, overwritten_count = 0, skipped_count = 0, total_count = 0,
      icloud_photos = {}\<rparr>"

definition download_photos :: "int \<Rightarrow> api \<Rightarrow> path \<Rightarrow> bool \<Rightarrow> world \<Rightarrow> path set result \<times> world" where
  "download_photos lvl ap destination overwrite_existing w =
     (case photos_loop lvl destination overwrite_existing (photos_all ap)
             (initial_locals, print (DownloadingAll destination overwrite_existing) w) of
        (Raise e, w') \<Rightarrow> (Raise e, w')
      | (Ok l, w') \<Rightarrow>
          if listing_fails ap then (Raise ListingError, w')
          else
            (Ok (icloud_photos l),
             log_debug lvl (IcloudPhotos (icloud_photos l))
               (print (Summary (downloaded_count l) (skipped_count l)
                         (overwritten_count l) (total_count l)) w')))"

subsection \<open>remove_missing\<close>

text \<open>
  Lines 199 to 203: the entries of the directory that are regular files themselves
  and whose path is not in \<^verbatim>\<open>icloud_photos\<close>. The Python set of entries is a list here,
  in the order of the scan.
\<close>

definition photos_for_removal :: "path set \<Rightarrow> dir_entry list \<Rightarrow> dir_entry list" where
  "photos_for_removal owned entries =
     filter (\<lambda>entry. is_file entry \<and> entry_path entry \<notin> owned) entries"

text \<open>Lines 214 to 216: unlink each entry and print a dot.\<close>

fun unlink_all :: "dir_entry list \<Rightarrow> world \<Rightarrow> unit result \<times> world" where
  "unlink_all [] w = (Ok (), w)"
| "unlink_all (entry # rest) w =
     (case unlink (fs w) (entry_path entry) of
        Raise e \<Rightarrow> (Raise e, w)
      | Ok fs' \<Rightarrow> unlink_all rest (print Dot (w\<lparr>fs := fs'\<rparr>)))"

text \<open>
  \<^verbatim>\<open>remove_missing(destination, icloud_photos)\<close>; \<open>confirm\<close> is what the one call of
  \<^verbatim>\<open>click.confirm\<close> does when it is reached: an answer, or \<^verbatim>\<open>Abort\<close>.
\<close>

definition remove_missing :: "int \<Rightarrow> path \<Rightarrow> path set \<Rightarrow> bool result \<Rightarrow> world \<Rightarrow> unit result \<times> world" where
  "remove_missing lvl destination owned confirm w =
     (let w1 = print CheckingMissing w
      in case scandir (fs w1) destination of
           Raise e \<Rightarrow> (Raise e, w1)
         | Ok entries \<Rightarrow>
             (let cands = photos_for_removal owned entries;
                  w2 = fold (\<lambda>entry. log_debug lvl (ConsideredForRemoval (entry_name entry))) cands w1
              in if cands = [] then (Ok (), print NothingToDo w2)
                 else
                   (let w3 = print (MissingPhotos (length cands)) w2;
                        w4 = fold (\<lambda>entry. print (EntryName (entry_name entry))) cands w3;
                        w5 = print ConfirmPrompt w4
                    in case confirm of
                         Raise e \<Rightarrow> (Raise e, w5)
                       | Ok True \<Rightarrow>
                           (case unlink_all cands w5 of
                              (Raise e, w6) \<Rightarrow> (Raise e, w6)
                            | (Ok u, w6) \<Rightarrow> (Ok (), print (Removed (length cands)) w6))
                       | Ok False \<Rightarrow> (Ok (), log_info lvl AbortRemoval w5))))"

subsection \<open>run\<close>

record config =
  username :: pyval
  password :: pyval
  destination :: path
  overwrite :: pyval
  remove_flag :: pyval          \<comment> \<open>\<^verbatim>\<open>config["remove"]\<close>\<close>

record app =
  verbose :: int
  config :: config

text \<open>
  \<^verbatim>\<open>connect_to_icloud\<close> logs and talks to the service; \<open>connected\<close> is what that
  conversation ends in, the service object or an exception.
\<close>

definition connect_to_icloud :: "int \<Rightarrow> api result \<Rightarrow> world \<Rightarrow> api result \<times> world" where
  "connect_to_icloud lvl connected w = (connected, log_info lvl Connecting w)"

definition run :: "app \<Rightarrow> api result \<Rightarrow> bool result \<Rightarrow> world \<Rightarrow> unit result \<times> world" where
  "run self connected confirm w =
     (let cfg = config self; lvl = logger_level (verbose self)
      in case connect_to_icloud lvl connected w of
           (Raise e, w0) \<Rightarrow> (Raise e, w0)
         | (Ok ap, w0) \<Rightarrow>
             (case download_photos lvl ap (destination cfg) (truthy (overwrite cfg)) w0 of
                (Raise e, w') \<Rightarrow> (Raise e, w')
              | (Ok owned, w') \<Rightarrow>
                  if truthy (remove_flag cfg)
                  then remove_missing lvl (destination cfg) owned confirm w'
                  else (Ok (), w')))"

subsection \<open>Streams as data, and an example\<close>

text \<open>A read that delivers bytes, and the bytes it delivers.\<close>

definition is_data :: "read_result \<Rightarrow> bool" where
  "is_data r = (case r of Chunk buf \<Rightarrow> buf \<noteq> [] | ReadFailure \<Rightarrow> False)"

definition payload :: "read_result \<Rightarrow> byte list" where
  "payload r = (case r of Chunk buf \<Rightarrow> buf | ReadFailure \<Rightarrow> [])"

text \<open>
  The scenario of the spec: the destination holds a.jpg and b.jpg, the remote side
  lists b.jpg and c.jpg.
\<close>

definition example_world :: world where
  "example_world =
     \<lparr>fs = [(''/d'', Directory), (''/d/a.jpg'', RegularFile [1]), (''/d/b.jpg'', RegularFile [2])],
      stdout = [], logged = [], handles = {#}, progress = []\<rparr>"

definition photo_b :: photo where
  "photo_b = \<lparr>filename = ''b.jpg'', photo_size = 1, download = Ok [Chunk [7]]\<rparr>"

definition photo_c :: photo where
  "photo_c = \<lparr>filename = ''c.jpg'', photo_size = 1000, download = Ok [Chunk [8, 9], Chunk [10]]\<rparr>"

definition example_api :: api where
  "example_api = \<lparr>photos_all = [photo_b, photo_c], listing_fails = False\<rparr>"

text \<open>A photo whose stream fails after two bytes, a listing with it, and an application.\<close>

definition photo_f :: photo where
  "photo_f = \<lparr>filename = ''f.jpg'', photo_size = 1000, download = Ok [Chunk [8, 9], ReadFailure]\<rparr>"

definition failing_api :: api where
  "failing_api = \<lparr>photos_all = [photo_c, photo_f], listing_fails = False\<rparr>"

definition example_app :: "bool \<Rightarrow> app" where
  "example_app rm =
     \<lparr>verbose = 1,
      config = \<lparr>username = PStr ''user'', password = PStr ''secret'', destination = ''/d'',
                overwrite = PBool False, remove_flag = PBool rm\<rparr>\<rparr>"

text \<open>
  The world of \<^verbatim>\<open>remove_missing\<close> when \<^verbatim>\<open>click.confirm\<close> is called (line 213): the
  candidates have been logged, counted and listed, and the question is on the terminal.
\<close>

definition asked :: "int \<Rightarrow> dir_entry list \<Rightarrow> world \<Rightarrow> world" where
  "asked lvl cands w =
     print ConfirmPrompt
       (fold (\<lambda>entry. print (EntryName (entry_name entry))) cands
          (print (MissingPhotos (length cands))
             (fold (\<lambda>entry. log_debug lvl (ConsideredForRemoval (entry_name entry))) cands
                (print CheckingMissing w))))"

text \<open>A destination that also holds a symbolic link and a directory.\<close>

definition linked_world :: world where
  "linked_world =
     \<lparr>fs = [(''/d'', Directory), (''/d/a.jpg'', RegularFile [1]), (''/d/b.jpg'', RegularFile [2]),
            (''/d/l.jpg'', Symlink ''/d/b.jpg''), (''/d/sub'', Directory),
            (''/d/sub/x.jpg'', RegularFile [3])],
      stdout = [], logged = [], handles = {#}, progress = []\<rparr>"

section \<open>Properties\<close>

subsection \<open>Evaluation on concrete inputs\<close>

lemma follow_unfold:
  "follow fsys n p =
     (case map_of fsys p of
        Some (Symlink t) \<Rightarrow>
          (case n of 0 \<Rightarrow> Raise TooManyLinks | Suc m \<Rightarrow> follow fsys m (path_join (dirname p) t))
      | _ \<Rightarrow> Ok p)"
  by (cases n) (auto split: option.splits node.splits)

lemmas eval_defs =
  download_photos_def photo_iteration_def print_def initial_locals_def path_join_def
  isfile_def max_symlinks_def download_and_count_def transfer_def open_wb_def log_debug_def
  log_info_def copyfileobj_def dirname_def follow_unfold Let_def remove_missing_def
  scandir_def entry_at_def child_name_def photos_for_removal_def is_file_def unlink_def
  example_world_def photo_b_def photo_c_def example_api_def photo_f_def failing_api_def
  example_app_def logger_level_def run_def connect_to_icloud_def linked_world_def

subsection \<open>The file system\<close>

lemma follow_no_link:
  "\<forall>t. map_of fsys p \<noteq> Some (Symlink t) \<Longrightarrow> follow fsys n p = Ok p"
  by (cases n) (auto split: option.splits node.splits)

lemma follow_ends_off_link:
  "follow fsys n p = Ok q \<Longrightarrow> \<forall>t. map_of fsys q \<noteq> Some (Symlink t)"
  by (induction fsys n p rule: follow.induct) (auto split: option.splits node.splits)

lemma isfile_regular:
  "map_of fsys p = Some (RegularFile c) \<Longrightarrow> isfile fsys p"
  by (simp add: isfile_def follow_no_link)

lemma isfile_absent:
  "map_of fsys p = None \<Longrightarrow> \<not> isfile fsys p"
  by (simp add: isfile_def follow_no_link)

lemma isfile_directory:
  "map_of fsys p = Some Directory \<Longrightarrow> \<not> isfile fsys p"
  by (simp add: isfile_def follow_no_link)

lemma download_and_count_Ok:
  "download_and_count lvl fname ph (l, w) = (Ok l', w') \<Longrightarrow>
     l' = l\<lparr>downloaded_count := downloaded_count l + 1\<rparr>"
  by (auto simp: download_and_count_def split: prod.splits result.splits)

lemma photo_iteration_Ok_cases:
  assumes "photo_iteration lvl d ow ph (l, w) = (Ok l', w')"
  shows "(isfile (fs w) (path_join d (filename ph)) \<and> \<not> ow \<and>
            l' = l\<lparr>total_count := total_count l + 1,
                   icloud_photos := insert (path_join d (filename ph)) (icloud_photos l),
                   skipped_count := skipped_count l + 1\<rparr>)
       \<or> (isfile (fs w) (path_join d (filename ph)) \<and> ow \<and>
            l' = l\<lparr>total_count := total_count l + 1,
                   icloud_photos := insert (path_join d (filename ph)) (icloud_photos l),
                   overwritten_count := overwritten_count l + 1,
                   downloaded_count := downloaded_count l + 1\<rparr>)
       \<or> (\<not> isfile (fs w) (path_join d (filename ph)) \<and>
            l' = l\<lparr>total_count := total_count l + 1,
                   icloud_photos := insert (path_join d (filename ph)) (icloud_photos l),
                   downloaded_count := downloaded_count l + 1\<rparr>)"
  using assms
  by (auto simp: photo_iteration_def Let_def dest!: download_and_count_Ok split: if_splits)

lemma photos_loop_counts:
  "photos_loop lvl d ow phs (l, w) = (Ok l', w') \<Longrightarrow>
     total_count l' = total_count l + int (length phs)
   \<and> skipped_count l' + downloaded_count l' = skipped_count l + downloaded_count l + int (length phs)
   \<and> overwritten_count l' - overwritten_count l \<le> downloaded_count l' - downloaded_count l
   \<and> overwritten_count l \<le> overwritten_count l'
   \<and> skipped_count l \<le> skipped_count l'
   \<and> icloud_photos l' = icloud_photos l \<union> (\<lambda>ph. path_join d (filename ph)) ` set phs"
proof (induction phs arbitrary: l w)
  case Nil
  then show ?case by simp
next
  case (Cons ph phs)
  from Cons.prems obtain l1 w1 where
    step: "photo_iteration lvl d ow ph (l, w) = (Ok l1, w1)" and
    rest: "photos_loop lvl d ow phs (l1, w1) = (Ok l', w')"
    by (auto split: prod.splits result.splits)
  from photo_iteration_Ok_cases[OF step] Cons.IH[OF rest]
  show ?case by auto
qed

subsection \<open>The loop of download_photos\<close>

lemma log_debug_fields [simp]:
  "fs (log_debug lvl r w) = fs w"
  "stdout (log_debug lvl r w) = stdout w"
  "handles (log_debug lvl r w) = handles w"
  "progress (log_debug lvl r w) = progress w"
  by (simp_all add: log_debug_def)

lemma log_info_fields [simp]:
  "fs (log_info lvl r w) = fs w"
  "stdout (log_info lvl r w) = stdout w"
  "handles (log_info lvl r w) = handles w"
  "progress (log_info lvl r w) = progress w"
  by (simp_all add: log_info_def)

lemma print_fields [simp]:
  "fs (print x w) = fs w"
  "stdout (print x w) = stdout w @ [x]"
  "handles (print x w) = handles w"
  "logged (print x w) = logged w"
  "progress (print x w) = progress w"
  by (simp_all add: print_def)

lemma transfer_stdout:
  "transfer lvl fname ph w = (r, w') \<Longrightarrow> stdout w' = stdout w"
  by (auto simp: transfer_def Let_def split: result.splits prod.splits)

lemma transfer_handles:
  "transfer lvl fname ph w = (r, w') \<Longrightarrow>
     handles w' = (case download ph of
                     Ok raw \<Rightarrow> add_mset (Source (filename ph)) (handles w)
                   | Raise e \<Rightarrow> handles w)"
  by (auto simp: transfer_def Let_def split: result.splits prod.splits)

lemma transfer_Ok_download:
  "transfer lvl fname ph w = (Ok u, w') \<Longrightarrow> \<exists>raw. download ph = Ok raw"
  by (auto simp: transfer_def Let_def split: result.splits prod.splits)

lemma photo_iteration_stdout:
  "photo_iteration lvl d ow ph (l, w) = (r, w') \<Longrightarrow> stdout w' = stdout w"
  by (auto simp: photo_iteration_def download_and_count_def Let_def
      dest: transfer_stdout split: if_splits prod.splits result.splits)

lemma photos_loop_stdout:
  "photos_loop lvl d ow phs (l, w) = (r, w') \<Longrightarrow> stdout w' = stdout w"
proof (induction phs arbitrary: l w)
  case Nil
  then show ?case by auto
next
  case (Cons ph phs)
  show ?case
  proof (cases "photo_iteration lvl d ow ph (l, w)")
    case (Pair r1 w1)
    then have s1: "stdout w1 = stdout w" by (rule photo_iteration_stdout)
    show ?thesis
    proof (cases r1)
      case (Ok l1)
      with Pair Cons.prems have "photos_loop lvl d ow phs (l1, w1) = (r, w')" by simp
      from Cons.IH[OF this] s1 show ?thesis by simp
    next
      case (Raise e)
      with Pair Cons.prems s1 show ?thesis by simp
    qed
  qed
qed

lemma photo_iteration_handles:
  assumes "photo_iteration lvl d ow ph (l, w) = (Ok l', w')"
  shows "size (handles w') = size (handles w) + nat (downloaded_count l' - downloaded_count l)"
proof -
  have dl: "\<And>l0 w0. download_and_count lvl (path_join d (filename ph)) ph (l0, w0) = (Ok l', w') \<Longrightarrow>
        size (handles w') = size (handles w0) + 1 \<and> downloaded_count l' = downloaded_count l0 + 1"
  proof -
    fix l0 w0
    assume a: "download_and_count lvl (path_join d (filename ph)) ph (l0, w0) = (Ok l', w')"
    then obtain u where t: "transfer lvl (path_join d (filename ph)) ph w0 = (Ok u, w')"
      and l': "l' = l0\<lparr>downloaded_count := downloaded_count l0 + 1\<rparr>"
      by (auto simp: download_and_count_def split: prod.splits result.splits)
    from transfer_Ok_download[OF t] transfer_handles[OF t] l'
    show "size (handles w') = size (handles w0) + 1 \<and> downloaded_count l' = downloaded_count l0 + 1"
      by auto
  qed
  from assms show ?thesis
    by (auto simp: photo_iteration_def Let_def split: if_splits dest!: dl)
qed

lemma photo_iteration_downloaded_mono:
  "photo_iteration lvl d ow ph (l, w) = (Ok l', w') \<Longrightarrow> downloaded_count l \<le> downloaded_count l'"
  by (drule photo_iteration_Ok_cases) auto

lemma photos_loop_downloaded_mono:
  "photos_loop lvl d ow phs (l, w) = (Ok l', w') \<Longrightarrow> downloaded_count l \<le> downloaded_count l'"
proof (induction phs arbitrary: l w)
  case Nil
  then show ?case by simp
next
  case (Cons ph phs)
  from Cons.prems obtain l1 w1 where
    step: "photo_iteration lvl d ow ph (l, w) = (Ok l1, w1)" and
    rest: "photos_loop lvl d ow phs (l1, w1) = (Ok l', w')"
    by (auto split: prod.splits result.splits)
  from photo_iteration_downloaded_mono[OF step] Cons.IH[OF rest] show ?case by simp
qed

lemma photos_loop_handles:
  "photos_loop lvl d ow phs (l, w) = (Ok l', w') \<Longrightarrow>
     size (handles w') = size (handles w) + nat (downloaded_count l' - downloaded_count l)"
proof (induction phs arbitrary: l w)
  case Nil
  then show ?case by simp
next
  case (Cons ph phs)
  from Cons.prems obtain l1 w1 where
    step: "photo_iteration lvl d ow ph (l, w) = (Ok l1, w1)" and
    rest: "photos_loop lvl d ow phs (l1, w1) = (Ok l', w')"
    by (auto split: prod.splits result.splits)
  from photo_iteration_handles[OF step] Cons.IH[OF rest]
    photo_iteration_downloaded_mono[OF step] photos_loop_downloaded_mono[OF rest]
  show ?case by simp
qed

lemma download_photos_Ok:
  assumes "download_photos lvl ap d ow w = (Ok owned, w')"
  obtains l w1 where
    "photos_loop lvl d ow (photos_all ap) (initial_locals, print (DownloadingAll d ow) w) = (Ok l, w1)"
    "owned = icloud_photos l"
    "w' = log_debug lvl (IcloudPhotos (icloud_photos l))
            (print (Summary (downloaded_count l) (skipped_count l) (overwritten_count l) (total_count l)) w1)"
  using assms
  by (auto simp: download_photos_def split: prod.splits result.splits if_splits)


subsection \<open>The counters at completion\<close>

text \<open>
  C10. When \<^verbatim>\<open>download_photos\<close> returns, the summary it has printed satisfies
  skipped + downloaded = total, where total is the number of items listed, and
  overwritten \<le> downloaded: the downloaded counter counts every item that was
  transferred, new or overwritten. It is also the number of responses the run
  obtained from \<^verbatim>\<open>photo.download()\<close>.
\<close>

theorem download_photos_summary:
  assumes "download_photos lvl ap d ow w = (Ok owned, w')"
  shows "\<exists>dl sk ov tot.
           stdout w' = stdout w @ [DownloadingAll d ow, Summary dl sk ov tot]
         \<and> sk + dl = tot \<and> ov \<le> dl \<and> 0 \<le> ov \<and> 0 \<le> sk
         \<and> tot = int (length (photos_all ap))
         \<and> size (handles w') = size (handles w) + nat dl"
proof -
  from assms obtain l w1 where
    loop: "photos_loop lvl d ow (photos_all ap) (initial_locals, print (DownloadingAll d ow) w) = (Ok l, w1)"
    and w': "w' = log_debug lvl (IcloudPhotos (icloud_photos l))
            (print (Summary (downloaded_count l) (skipped_count l) (overwritten_count l) (total_count l)) w1)"
    by (rule download_photos_Ok)
  from photos_loop_counts[OF loop] photos_loop_stdout[OF loop] photos_loop_handles[OF loop] w'
  show ?thesis by (simp add: initial_locals_def)
qed

theorem download_photos_summary_witness:
  "download_photos 50 example_api ''/d'' False example_world =
     (Ok {''/d/c.jpg'', ''/d/b.jpg''},
      \<lparr>fs = [(''/d'', Directory), (''/d/a.jpg'', RegularFile [1]),
             (''/d/b.jpg'', RegularFile [2]), (''/d/c.jpg'', RegularFile [8, 9, 10])],
       stdout = [DownloadingAll ''/d'' False, Summary 1 1 0 2], logged = [],
       handles = {#Source ''c.jpg''#}, progress = [2, Suc 0]\<rparr>)
   \<and> (\<exists>dl sk ov tot.
         [DownloadingAll ''/d'' False, Summary 1 1 0 2] =
           stdout example_world @ [DownloadingAll ''/d'' False, Summary dl sk ov tot]
       \<and> sk + dl = tot \<and> ov \<le> dl \<and> 0 \<le> ov \<and> 0 \<le> sk
       \<and> tot = int (length (photos_all example_api))
       \<and> size {#Source ''c.jpg''#} = size (handles example_world) + nat dl)"
proof -
  have run: "download_photos 50 example_api ''/d'' False example_world =
     (Ok {''/d/c.jpg'', ''/d/b.jpg''},
      \<lparr>fs = [(''/d'', Directory), (''/d/a.jpg'', RegularFile [1]),
             (''/d/b.jpg'', RegularFile [2]), (''/d/c.jpg'', RegularFile [8, 9, 10])],
       stdout = [DownloadingAll ''/d'' False, Summary 1 1 0 2], logged = [],
       handles = {#Source ''c.jpg''#}, progress = [2, Suc 0]\<rparr>)"
    by (simp add: eval_defs)
  from download_photos_summary[OF run] run show ?thesis by simp
qed

subsection \<open>The counters, outcome by outcome\<close>

text \<open>
  C6, as amended. In an iteration that completes, skipping an existing file adds one
  to skipped only; downloading a new file adds one to downloaded only; overwriting an
  existing file adds one to overwritten and one to downloaded. Every iteration adds
  one to total. So when the loop completes, total is the number of items and
  skipped + downloaded = total.
\<close>

theorem photo_iteration_counters:
  "(photo_iteration lvl d ow ph (l, w) = (Ok l', w') \<longrightarrow>
      total_count l' = total_count l + 1
    \<and> (if isfile (fs w) (path_join d (filename ph)) \<and> \<not> ow then
          skipped_count l' = skipped_count l + 1
        \<and> downloaded_count l' = downloaded_count l
        \<and> overwritten_count l' = overwritten_count l
       else if isfile (fs w) (path_join d (filename ph)) then
          skipped_count l' = skipped_count l
        \<and> downloaded_count l' = downloaded_count l + 1
        \<and> overwritten_count l' = overwritten_count l + 1
       else
          skipped_count l' = skipped_count l
        \<and> downloaded_count l' = downloaded_count l + 1
        \<and> overwritten_count l' = overwritten_count l))
   \<and> (photos_loop lvl d ow phs (initial_locals, w0) = (Ok lf, w_end) \<longrightarrow>
        total_count lf = int (length phs)
      \<and> skipped_count lf + downloaded_count lf = total_count lf)"
proof (intro conjI impI)
  assume "photos_loop lvl d ow phs (initial_locals, w0) = (Ok lf, w_end)"
  from photos_loop_counts[OF this]
  show "total_count lf = int (length phs)"
    and "skipped_count lf + downloaded_count lf = total_count lf"
    by (simp_all add: initial_locals_def)
next
  assume a: "photo_iteration lvl d ow ph (l, w) = (Ok l', w')"
  from photo_iteration_Ok_cases[OF a]
  show "total_count l' = total_count l + 1" by auto
  from photo_iteration_Ok_cases[OF a]
  show "if isfile (fs w) (path_join d (filename ph)) \<and> \<not> ow then
          skipped_count l' = skipped_count l + 1
        \<and> downloaded_count l' = downloaded_count l
        \<and> overwritten_count l' = overwritten_count l
       else if isfile (fs w) (path_join d (filename ph)) then
          skipped_count l' = skipped_count l
        \<and> downloaded_count l' = downloaded_count l + 1
        \<and> overwritten_count l' = overwritten_count l + 1
       else
          skipped_count l' = skipped_count l
        \<and> downloaded_count l' = downloaded_count l + 1
        \<and> overwritten_count l' = overwritten_count l"
    by auto
qed

text \<open>
  The claim as stated fails: with one remote item whose file exists and the overwrite
  flag set, the run prints downloaded 1, skipped 0, overwritten 1, total 1, and
  0 + 1 + 1 is not 1.
\<close>

theorem counters_sum_counterexample:
  "download_photos 50 \<lparr>photos_all = [photo_b], listing_fails = False\<rparr> ''/d'' True example_world =
     (Ok {''/d/b.jpg''},
      \<lparr>fs = [(''/d'', Directory), (''/d/a.jpg'', RegularFile [1]), (''/d/b.jpg'', RegularFile [7])],
       stdout = [DownloadingAll ''/d'' True, Summary 1 0 1 1], logged = [],
       handles = {#Source ''b.jpg''#}, progress = [Suc 0]\<rparr>)
   \<and> (0::int) + 1 + 1 \<noteq> 1"
  by (simp add: eval_defs)

theorem photo_iteration_counters_witness:
  "photo_iteration 50 ''/d'' True photo_b (initial_locals, example_world) =
     (Ok \<lparr>downloaded_count = 1, overwritten_count = 1, skipped_count = 0, total_count = 1,
          icloud_photos = {''/d/b.jpg''}\<rparr>,
      \<lparr>fs = [(''/d'', Directory), (''/d/a.jpg'', RegularFile [1]), (''/d/b.jpg'', RegularFile [7])],
       stdout = [], logged = [], handles = {#Source ''b.jpg''#}, progress = [Suc 0]\<rparr>)
   \<and> isfile (fs example_world) (path_join ''/d'' (filename photo_b))
   \<and> photos_loop 50 ''/d'' True [photo_b] (initial_locals, example_world) =
     (Ok \<lparr>downloaded_count = 1, overwritten_count = 1, skipped_count = 0, total_count = 1,
          icloud_photos = {''/d/b.jpg''}\<rparr>,
      \<lparr>fs = [(''/d'', Directory), (''/d/a.jpg'', RegularFile [1]), (''/d/b.jpg'', RegularFile [7])],
       stdout = [], logged = [], handles = {#Source ''b.jpg''#}, progress = [Suc 0]\<rparr>)
   \<and> (1::int) = 0 + 1 \<and> (0::int) + 1 = 1"
proof -
  let ?l = "\<lparr>downloaded_count = 1, overwritten_count = 1, skipped_count = 0, total_count = 1,
          icloud_photos = {''/d/b.jpg''}\<rparr>"
  let ?w = "\<lparr>fs = [(''/d'', Directory), (''/d/a.jpg'', RegularFile [1]), (''/d/b.jpg'', RegularFile [7])],
       stdout = [], logged = [], handles = {#Source ''b.jpg''#}, progress = [Suc 0]\<rparr>"
  have step: "photo_iteration 50 ''/d'' True photo_b (initial_locals, example_world) = (Ok ?l, ?w)"
    by (simp add: eval_defs)
  have loop: "photos_loop 50 ''/d'' True [photo_b] (initial_locals, example_world) = (Ok ?l, ?w)"
    by (simp add: step)
  have f: "isfile (fs example_world) (path_join ''/d'' (filename photo_b))"
    by (simp add: eval_defs)
  from photo_iteration_counters[of 50 "''/d''" True photo_b initial_locals example_world ?l ?w
      "[photo_b]" example_world ?l ?w] step loop f
  show ?thesis by (simp add: initial_locals_def)
qed

lemma download_photos_owned:
  assumes "download_photos lvl ap d ow w = (Ok owned, w')"
  shows "owned = (\<lambda>ph. path_join d (filename ph)) ` set (photos_all ap)"
proof -
  from assms obtain l w1 where
    loop: "photos_loop lvl d ow (photos_all ap) (initial_locals, print (DownloadingAll d ow) w) = (Ok l, w1)"
    and o: "owned = icloud_photos l"
    by (rule download_photos_Ok)
  from photos_loop_counts[OF loop] o show ?thesis by (simp add: initial_locals_def)
qed

subsection \<open>The ownership set\<close>

text \<open>
  C2. When \<^verbatim>\<open>download_photos\<close> returns, the set it returns is the set of
  \<open>join(destination, name)\<close> over all listed items, whether they were skipped or
  transferred; items with the same target path are one element, so its size is the
  number of distinct target paths.
\<close>

theorem ownership_set_complete:
  assumes "download_photos lvl ap d ow w = (Ok owned, w')"
  shows "owned = (\<lambda>ph. path_join d (filename ph)) ` set (photos_all ap)
       \<and> card owned = length (remdups (map (\<lambda>ph. path_join d (filename ph)) (photos_all ap)))
       \<and> card owned \<le> length (photos_all ap)"
proof -
  let ?f = "\<lambda>ph. path_join d (filename ph)"
  have o: "owned = set (map ?f (photos_all ap))"
    using download_photos_owned[OF assms] by simp
  have c: "card owned = length (remdups (map ?f (photos_all ap)))"
    unfolding o by (rule List.card_set)
  have "length (remdups (map ?f (photos_all ap))) \<le> length (map ?f (photos_all ap))"
    by (rule length_remdups_leq)
  with o c show ?thesis by simp
qed

theorem ownership_set_complete_witness:
  "download_photos 50 example_api ''/d'' False example_world =
     (Ok {''/d/c.jpg'', ''/d/b.jpg''},
      \<lparr>fs = [(''/d'', Directory), (''/d/a.jpg'', RegularFile [1]),
             (''/d/b.jpg'', RegularFile [2]), (''/d/c.jpg'', RegularFile [8, 9, 10])],
       stdout = [DownloadingAll ''/d'' False, Summary 1 1 0 2], logged = [],
       handles = {#Source ''c.jpg''#}, progress = [2, Suc 0]\<rparr>)
   \<and> {''/d/c.jpg'', ''/d/b.jpg''} = (\<lambda>ph. path_join ''/d'' (filename ph)) ` set (photos_all example_api)
   \<and> card {''/d/c.jpg'', ''/d/b.jpg''} \<le> length (photos_all example_api)"
proof -
  have run: "download_photos 50 example_api ''/d'' False example_world =
     (Ok {''/d/c.jpg'', ''/d/b.jpg''},
      \<lparr>fs = [(''/d'', Directory), (''/d/a.jpg'', RegularFile [1]),
             (''/d/b.jpg'', RegularFile [2]), (''/d/c.jpg'', RegularFile [8, 9, 10])],
       stdout = [DownloadingAll ''/d'' False, Summary 1 1 0 2], logged = [],
       handles = {#Source ''c.jpg''#}, progress = [2, Suc 0]\<rparr>)"
    by (simp add: eval_defs)
  from ownership_set_complete[OF run] run show ?thesis by blast
qed

subsection \<open>Copying a stream\<close>

lemma shutil_copyfileobj_eq:
  "shutil_copyfileobj fsrc dst =
     (case dropWhile is_data fsrc of ReadFailure # rest \<Rightarrow> Raise ReadError | _ \<Rightarrow> Ok (),
      dst @ concat (map payload (takeWhile is_data fsrc)))"
  by (induction fsrc dst rule: shutil_copyfileobj.induct)
     (simp_all add: is_data_def payload_def)

lemma Copy_fileobj_eq:
  "Copy_fileobj fsrc dst ups =
     (case dropWhile is_data fsrc of ReadFailure # rest \<Rightarrow> Raise ReadError | _ \<Rightarrow> Ok (),
      dst @ concat (map payload (takeWhile is_data fsrc)),
      ups @ map (length \<circ> payload) (takeWhile is_data fsrc))"
  by (induction fsrc dst ups rule: Copy_fileobj.induct)
     (simp_all add: is_data_def payload_def)

lemma dropWhile_no_failure:
  "ReadFailure \<notin> set fsrc \<Longrightarrow>
     (case dropWhile is_data fsrc of ReadFailure # rest \<Rightarrow> Raise ReadError | _ \<Rightarrow> Ok ()) = Ok ()"
  by (induction fsrc) (auto split: read_result.splits)

lemma dropWhile_all_data:
  "list_all is_data fsrc \<Longrightarrow> dropWhile is_data fsrc = [] \<and> takeWhile is_data fsrc = fsrc"
  by (induction fsrc) auto

text \<open>
  C7. \<^verbatim>\<open>_copyfileobj\<close> leaves in the sink, after what it held, exactly the bytes the
  source delivered, in order, up to the first read that returns nothing or fails. It
  fails only when a read fails: the declared size selects the branch and nothing else,
  so a stream that ends properly is copied whole and the copy succeeds, whatever size
  was declared. The witness is the spec's scenario, 1200 bytes for a declared 1000.
\<close>

theorem copyfileobj_copies_stream:
  assumes "copyfileobj lvl fsrc dst sz desc = (r, out, ups)"
  shows "out = dst @ concat (map payload (takeWhile is_data fsrc))
       \<and> r = (case dropWhile is_data fsrc of ReadFailure # rest \<Rightarrow> Raise ReadError | _ \<Rightarrow> Ok ())
       \<and> (ReadFailure \<notin> set fsrc \<longrightarrow> r = Ok ())
       \<and> (list_all is_data fsrc \<longrightarrow> r = Ok () \<and> out = dst @ concat (map payload fsrc))"
proof -
  from assms have
    out: "out = dst @ concat (map payload (takeWhile is_data fsrc))" and
    r: "r = (case dropWhile is_data fsrc of ReadFailure # rest \<Rightarrow> Raise ReadError | _ \<Rightarrow> Ok ())"
    by (auto simp: copyfileobj_def shutil_copyfileobj_eq Copy_fileobj_eq split: if_splits)
  have nf: "ReadFailure \<notin> set fsrc \<longrightarrow> r = Ok ()"
    using r dropWhile_no_failure by simp
  have all: "list_all is_data fsrc \<longrightarrow> r = Ok () \<and> out = dst @ concat (map payload fsrc)"
  proof
    assume a: "list_all is_data fsrc"
    then have "takeWhile is_data fsrc = fsrc" "dropWhile is_data fsrc = []"
      using dropWhile_all_data by blast+
    with out r show "r = Ok () \<and> out = dst @ concat (map payload fsrc)" by simp
  qed
  from out r nf all show ?thesis by blast
qed

theorem copyfileobj_copies_stream_witness:
  "copyfileobj 50 [Chunk (replicate 1000 1), Chunk (replicate 200 2)] [] 1000 ''c.jpg'' =
     (Ok (), replicate 1000 1 @ replicate 200 2, [1000, 200])
   \<and> length (replicate 1000 (1::byte) @ replicate 200 2) = 1200
   \<and> ReadFailure \<notin> set [Chunk (replicate 1000 1), Chunk (replicate 200 2)]
   \<and> list_all is_data [Chunk (replicate 1000 1), Chunk (replicate 200 2)]
   \<and> replicate 1000 1 @ replicate 200 2 =
       [] @ concat (map payload [Chunk (replicate 1000 1), Chunk (replicate 200 2)])"
proof -
  have run: "copyfileobj 50 [Chunk (replicate 1000 1), Chunk (replicate 200 2)] [] 1000 ''c.jpg'' =
     (Ok (), replicate 1000 1 @ replicate 200 2, [1000, 200])"
    by (simp add: copyfileobj_def)
  have d: "list_all is_data [Chunk (replicate 1000 1), Chunk (replicate 200 2)]"
    by (simp add: is_data_def)
  from copyfileobj_copies_stream[OF run] run d show ?thesis by (simp add: payload_def)
qed


lemma download_photos_Raise_stdout:
  assumes "download_photos lvl ap d ow w = (Raise e, w')"
  shows "stdout w' = stdout w @ [DownloadingAll d ow]"
proof (cases "photos_loop lvl d ow (photos_all ap) (initial_locals, print (DownloadingAll d ow) w)")
  case (Pair r1 w1)
  from photos_loop_stdout[OF Pair] have "stdout w1 = stdout w @ [DownloadingAll d ow]" by simp
  with assms Pair show ?thesis
    by (auto simp: download_photos_def split: result.splits if_splits)
qed

subsection \<open>run: removal only after a completed download\<close>

text \<open>
  C5. \<^verbatim>\<open>run\<close> calls \<^verbatim>\<open>remove_missing\<close> only after \<^verbatim>\<open>download_photos\<close> has
  returned, and gives it the set that call returned, which holds the target path of
  every listed item. When connecting or downloading raises, \<^verbatim>\<open>run\<close> raises the same
  exception and leaves the world as the failed step left it: nothing of the removal
  has run. When removal is not requested, \<^verbatim>\<open>run\<close> ends with the download.
\<close>

theorem run_removal_after_download:
  assumes "lvl = logger_level (verbose self)"
      and "cfg = config self"
      and "w0 = log_info lvl Connecting w"
  shows "(connected = Raise e \<longrightarrow> run self connected confirm w = (Raise e, w0))
       \<and> (connected = Ok ap
            \<and> download_photos lvl ap (destination cfg) (truthy (overwrite cfg)) w0 = (Raise e, w')
          \<longrightarrow> run self connected confirm w = (Raise e, w')
            \<and> stdout w' = stdout w @ [DownloadingAll (destination cfg) (truthy (overwrite cfg))])
       \<and> (connected = Ok ap
            \<and> download_photos lvl ap (destination cfg) (truthy (overwrite cfg)) w0 = (Ok owned, w')
            \<and> \<not> truthy (remove_flag cfg)
          \<longrightarrow> run self connected confirm w = (Ok (), w'))
       \<and> (connected = Ok ap
            \<and> download_photos lvl ap (destination cfg) (truthy (overwrite cfg)) w0 = (Ok owned, w')
            \<and> truthy (remove_flag cfg)
          \<longrightarrow> run self connected confirm w = remove_missing lvl (destination cfg) owned confirm w'
            \<and> owned = (\<lambda>ph. path_join (destination cfg) (filename ph)) ` set (photos_all ap))"
  using assms
  by (auto simp: run_def connect_to_icloud_def Let_def
      dest: download_photos_Raise_stdout download_photos_owned)

theorem run_removal_after_download_witness:
  "run (example_app True) (Raise ConnectError) (Ok True) example_world =
     (Raise ConnectError, example_world)
   \<and> download_photos 50 failing_api ''/d'' False example_world =
     (Raise ReadError,
      \<lparr>fs = [(''/d'', Directory), (''/d/a.jpg'', RegularFile [1]), (''/d/b.jpg'', RegularFile [2]),
             (''/d/c.jpg'', RegularFile [8, 9, 10]), (''/d/f.jpg'', RegularFile [8, 9])],
       stdout = [DownloadingAll ''/d'' False], logged = [],
       handles = {#Source ''f.jpg'', Source ''c.jpg''#}, progress = [2, Suc 0, 2]\<rparr>)
   \<and> run (example_app True) (Ok failing_api) (Ok True) example_world =
     (Raise ReadError,
      \<lparr>fs = [(''/d'', Directory), (''/d/a.jpg'', RegularFile [1]), (''/d/b.jpg'', RegularFile [2]),
             (''/d/c.jpg'', RegularFile [8, 9, 10]), (''/d/f.jpg'', RegularFile [8, 9])],
       stdout = [DownloadingAll ''/d'' False], logged = [],
       handles = {#Source ''f.jpg'', Source ''c.jpg''#}, progress = [2, Suc 0, 2]\<rparr>)
   \<and> run (example_app False) (Ok example_api) (Ok True) example_world =
     (Ok (),
      \<lparr>fs = [(''/d'', Directory), (''/d/a.jpg'', RegularFile [1]),
             (''/d/b.jpg'', RegularFile [2]), (''/d/c.jpg'', RegularFile [8, 9, 10])],
       stdout = [DownloadingAll ''/d'' False, Summary 1 1 0 2], logged = [],
       handles = {#Source ''c.jpg''#}, progress = [2, Suc 0]\<rparr>)
   \<and> run (example_app True) (Ok example_api) (Ok True) example_world =
     (Ok (),
      \<lparr>fs = [(''/d'', Directory), (''/d/b.jpg'', RegularFile [2]), (''/d/c.jpg'', RegularFile [8, 9, 10])],
       stdout = [DownloadingAll ''/d'' False, Summary 1 1 0 2, CheckingMissing, MissingPhotos 1,
                 EntryName ''a.jpg'', ConfirmPrompt, Dot, Removed 1],
       logged = [], handles = {#Source ''c.jpg''#}, progress = [2, Suc 0]\<rparr>)"
proof -
  let ?wf = "\<lparr>fs = [(''/d'', Directory), (''/d/a.jpg'', RegularFile [1]), (''/d/b.jpg'', RegularFile [2]),
             (''/d/c.jpg'', RegularFile [8, 9, 10]), (''/d/f.jpg'', RegularFile [8, 9])],
       stdout = [DownloadingAll ''/d'' False], logged = [],
       handles = {#Source ''f.jpg'', Source ''c.jpg''#}, progress = [2, Suc 0, 2]\<rparr>"
  let ?wd = "\<lparr>fs = [(''/d'', Directory), (''/d/a.jpg'', RegularFile [1]),
             (''/d/b.jpg'', RegularFile [2]), (''/d/c.jpg'', RegularFile [8, 9, 10])],
       stdout = [DownloadingAll ''/d'' False, Summary 1 1 0 2], logged = [],
       handles = {#Source ''c.jpg''#}, progress = [2, Suc 0]\<rparr>"
  have lvl: "(50::int) = logger_level (verbose (example_app rm))" for rm
    by (simp add: example_app_def logger_level_def)
  have w0: "example_world = log_info 50 Connecting example_world"
    by (simp add: log_info_def)
  have dest: "destination (config (example_app rm)) = ''/d''"
    and ovw: "truthy (overwrite (config (example_app rm))) = False"
    and rmf: "truthy (remove_flag (config (example_app rm))) = rm" for rm
    by (simp_all add: example_app_def)
  have fail: "download_photos 50 failing_api ''/d'' False example_world = (Raise ReadError, ?wf)"
    by (simp add: eval_defs)
  have good: "download_photos 50 example_api ''/d'' False example_world =
      (Ok {''/d/c.jpg'', ''/d/b.jpg''}, ?wd)"
    by (simp add: eval_defs)
  have rem: "remove_missing 50 ''/d'' {''/d/c.jpg'', ''/d/b.jpg''} (Ok True) ?wd =
     (Ok (),
      \<lparr>fs = [(''/d'', Directory), (''/d/b.jpg'', RegularFile [2]), (''/d/c.jpg'', RegularFile [8, 9, 10])],
       stdout = [DownloadingAll ''/d'' False, Summary 1 1 0 2, CheckingMissing, MissingPhotos 1,
                 EntryName ''a.jpg'', ConfirmPrompt, Dot, Removed 1],
       logged = [], handles = {#Source ''c.jpg''#}, progress = [2, Suc 0]\<rparr>)"
    by (simp add: eval_defs)
  have c1: "run (example_app True) (Raise ConnectError) (Ok True) example_world =
     (Raise ConnectError, example_world)"
    using run_removal_after_download[where self="example_app True" and lvl=50 and cfg="config (example_app True)"
        and w=example_world and w0=example_world and connected="Raise ConnectError" and confirm="Ok True" and e=ConnectError,
        OF lvl refl w0] by simp
  have c2: "run (example_app True) (Ok failing_api) (Ok True) example_world = (Raise ReadError, ?wf)"
    using run_removal_after_download[where self="example_app True" and lvl=50 and cfg="config (example_app True)"
        and w=example_world and w0=example_world and connected="Ok failing_api" and confirm="Ok True" and e=ReadError and ap=failing_api and w'="?wf",
        OF lvl refl w0] fail
    by (simp add: dest ovw)
  have c3: "run (example_app False) (Ok example_api) (Ok True) example_world = (Ok (), ?wd)"
    using run_removal_after_download[where self="example_app False" and lvl=50 and cfg="config (example_app False)"
        and w=example_world and w0=example_world and connected="Ok example_api" and confirm="Ok True" and ap=example_api and w'="?wd" and owned="{''/d/c.jpg'', ''/d/b.jpg''}",
        OF lvl refl w0] good
    by (simp add: dest ovw rmf)
  have c4: "run (example_app True) (Ok example_api) (Ok True) example_world =
      remove_missing 50 ''/d'' {''/d/c.jpg'', ''/d/b.jpg''} (Ok True) ?wd"
    using run_removal_after_download[where self="example_app True" and lvl=50 and cfg="config (example_app True)"
        and w=example_world and w0=example_world and connected="Ok example_api" and confirm="Ok True" and ap=example_api and w'="?wd" and owned="{''/d/c.jpg'', ''/d/b.jpg''}",
        OF lvl refl w0] good
    by (simp add: dest ovw rmf)
  from c1 fail c2 c3 c4 rem show ?thesis by simp
qed

subsection \<open>The action chosen for one item\<close>

text \<open>
  C1. For every item, the target path is \<open>join(destination, name)\<close>. When a regular
  file is at the target path and the overwrite flag is false, the iteration skips: it
  counts the item as skipped and transfers nothing. When a regular file is there and
  the flag is true, it counts an overwrite and transfers. When nothing is at the
  target path, it transfers without counting an overwrite.
\<close>

theorem photo_iteration_action:
  assumes "target = path_join d (filename ph)"
  shows "(map_of (fs w) target = Some (RegularFile c) \<and> \<not> ow \<longrightarrow>
            photo_iteration lvl d ow ph (l, w) =
              (Ok (l\<lparr>total_count := total_count l + 1,
                     icloud_photos := insert target (icloud_photos l),
                     skipped_count := skipped_count l + 1\<rparr>),
               log_debug lvl (SkippingExisting (filename ph)) w))
       \<and> (map_of (fs w) target = Some (RegularFile c) \<and> ow \<longrightarrow>
            photo_iteration lvl d ow ph (l, w) =
              download_and_count lvl target ph
                (l\<lparr>total_count := total_count l + 1,
                   icloud_photos := insert target (icloud_photos l),
                   overwritten_count := overwritten_count l + 1\<rparr>,
                 log_debug lvl (OverwritingExisting (filename ph)) w))
       \<and> (map_of (fs w) target = None \<longrightarrow>
            photo_iteration lvl d ow ph (l, w) =
              download_and_count lvl target ph
                (l\<lparr>total_count := total_count l + 1,
                   icloud_photos := insert target (icloud_photos l)\<rparr>, w))"
  using assms
  by (auto simp: photo_iteration_def Let_def dest: isfile_regular isfile_absent)

theorem photo_iteration_action_witness:
  "map_of (fs example_world) ''/d/b.jpg'' = Some (RegularFile [2])
   \<and> ''/d/b.jpg'' = path_join ''/d'' (filename photo_b)
   \<and> photo_iteration 50 ''/d'' False photo_b (initial_locals, example_world) =
       (Ok \<lparr>downloaded_count = 0, overwritten_count = 0, skipped_count = 1, total_count = 1,
            icloud_photos = {''/d/b.jpg''}\<rparr>, example_world)
   \<and> photo_iteration 50 ''/d'' True photo_b (initial_locals, example_world) =
       (Ok \<lparr>downloaded_count = 1, overwritten_count = 1, skipped_count = 0, total_count = 1,
            icloud_photos = {''/d/b.jpg''}\<rparr>,
        \<lparr>fs = [(''/d'', Directory), (''/d/a.jpg'', RegularFile [1]), (''/d/b.jpg'', RegularFile [7])],
         stdout = [], logged = [], handles = {#Source ''b.jpg''#}, progress = [Suc 0]\<rparr>)
   \<and> map_of (fs example_world) ''/d/c.jpg'' = None
   \<and> ''/d/c.jpg'' = path_join ''/d'' (filename photo_c)
   \<and> photo_iteration 50 ''/d'' False photo_c (initial_locals, example_world) =
       (Ok \<lparr>downloaded_count = 1, overwritten_count = 0, skipped_count = 0, total_count = 1,
            icloud_photos = {''/d/c.jpg''}\<rparr>,
        \<lparr>fs = [(''/d'', Directory), (''/d/a.jpg'', RegularFile [1]), (''/d/b.jpg'', RegularFile [2]),
               (''/d/c.jpg'', RegularFile [8, 9, 10])],
         stdout = [], logged = [], handles = {#Source ''c.jpg''#}, progress = [2, Suc 0]\<rparr>)"
proof -
  have tb: "''/d/b.jpg'' = path_join ''/d'' (filename photo_b)"
    and tc: "''/d/c.jpg'' = path_join ''/d'' (filename photo_c)"
    by (simp_all add: path_join_def photo_b_def photo_c_def)
  have fb: "map_of (fs example_world) ''/d/b.jpg'' = Some (RegularFile [2])"
    and fc: "map_of (fs example_world) ''/d/c.jpg'' = None"
    by (simp_all add: example_world_def)
  have skip: "photo_iteration 50 ''/d'' False photo_b (initial_locals, example_world) =
       (Ok (initial_locals\<lparr>total_count := total_count initial_locals + 1,
                     icloud_photos := insert ''/d/b.jpg'' (icloud_photos initial_locals),
                     skipped_count := skipped_count initial_locals + 1\<rparr>),
               log_debug 50 (SkippingExisting (filename photo_b)) example_world)"
    using photo_iteration_action[OF tb, where w = example_world and c = "[2]" and ow = False] fb
    by simp
  have over: "photo_iteration 50 ''/d'' True photo_b (initial_locals, example_world) =
       download_and_count 50 ''/d/b.jpg'' photo_b
                (initial_locals\<lparr>total_count := total_count initial_locals + 1,
                   icloud_photos := insert ''/d/b.jpg'' (icloud_photos initial_locals),
                   overwritten_count := overwritten_count initial_locals + 1\<rparr>,
                 log_debug 50 (OverwritingExisting (filename photo_b)) example_world)"
    using photo_iteration_action[OF tb, where w = example_world and c = "[2]" and ow = True] fb
    by simp
  have new: "photo_iteration 50 ''/d'' False photo_c (initial_locals, example_world) =
       download_and_count 50 ''/d/c.jpg'' photo_c
                (initial_locals\<lparr>total_count := total_count initial_locals + 1,
                   icloud_photos := insert ''/d/c.jpg'' (icloud_photos initial_locals)\<rparr>,
                 example_world)"
    using photo_iteration_action[OF tc, where w = example_world and ow = False] fc
    by simp
  show ?thesis
    unfolding skip over new using tb tc fb fc
    by (simp add: eval_defs)
qed

subsection \<open>Scanning and unlinking\<close>

lemma child_name_join:
  assumes "child_name d p = Some name" and "d \<noteq> []"
  shows "path_join d name = p \<and> name \<noteq> [] \<and> CHR ''/'' \<notin> set name"
proof -
  let ?prefix = "if last d = CHR ''/'' then d else d @ ''/''"
  from assms(1) have t: "take (length ?prefix) p = ?prefix"
    and n: "name = drop (length ?prefix) p"
    and ne: "name \<noteq> []" and ns: "CHR ''/'' \<notin> set name"
    by (auto simp: child_name_def Let_def split: if_splits)
  have p: "p = ?prefix @ name"
    using t n append_take_drop_id[of "length ?prefix" p] by simp
  from ne ns have "hd name \<noteq> CHR ''/''" by (cases name) auto
  with p assms(2) ne ns show ?thesis by (auto simp: path_join_def)
qed

lemma child_name_of_join:
  assumes "name \<noteq> []" and "CHR ''/'' \<notin> set name" and "d \<noteq> []"
  shows "child_name d (path_join d name) = Some name"
proof -
  from assms have "hd name \<noteq> CHR ''/''" by (cases name) auto
  with assms show ?thesis by (auto simp: child_name_def path_join_def Let_def)
qed

lemma scandir_Ok:
  "scandir fsys d = Ok entries \<Longrightarrow>
     d \<noteq> [] \<and> map_of fsys d = Some Directory
   \<and> entries = concat (map (entry_at fsys d) (remdups (map fst fsys)))"
  by (auto simp: scandir_def split: if_splits option.splits node.splits)

lemma entry_at_paths:
  "d \<noteq> [] \<Longrightarrow>
   map entry_path (concat (map (entry_at fsys d) ps)) =
     filter (\<lambda>p. child_name d p \<noteq> None \<and> map_of fsys p \<noteq> None) ps"
  by (induction ps) (auto simp: entry_at_def dest: child_name_join split: option.splits)

lemma entry_at_sound:
  assumes "d \<noteq> []" and "e \<in> set (concat (map (entry_at fsys d) ps))"
  shows "child_name d (entry_path e) = Some (entry_name e)
       \<and> map_of fsys (entry_path e) = Some (entry_node e)"
proof -
  from assms(2) obtain p where "e \<in> set (entry_at fsys d p)" by auto
  then obtain name nd where c: "child_name d p = Some name" and m: "map_of fsys p = Some nd"
    and e: "e = \<lparr>entry_name = name, entry_path = path_join d name, entry_node = nd\<rparr>"
    by (auto simp: entry_at_def split: option.splits)
  from child_name_join[OF c assms(1)] have "path_join d name = p" by simp
  with c m e show ?thesis by simp
qed

lemma scandir_distinct:
  assumes "scandir fsys d = Ok entries"
  shows "distinct (map entry_path entries)"
proof -
  from scandir_Ok[OF assms] have d: "d \<noteq> []"
    and e: "entries = concat (map (entry_at fsys d) (remdups (map fst fsys)))" by auto
  show ?thesis unfolding e entry_at_paths[OF d] by simp
qed

lemma scandir_sound:
  assumes "scandir fsys d = Ok entries" and "e \<in> set entries"
  shows "child_name d (entry_path e) = Some (entry_name e)
       \<and> map_of fsys (entry_path e) = Some (entry_node e)"
  using scandir_Ok[OF assms(1)] assms(2) entry_at_sound by blast

lemma scandir_paths:
  assumes "scandir fsys d = Ok entries"
  shows "entry_path ` set entries = {p. child_name d p \<noteq> None \<and> map_of fsys p \<noteq> None}"
proof -
  from scandir_Ok[OF assms] have d: "d \<noteq> []"
    and e: "entries = concat (map (entry_at fsys d) (remdups (map fst fsys)))" by auto
  have "entry_path ` set entries = set (map entry_path entries)" by simp
  also have "\<dots> = {p \<in> fst ` set fsys. child_name d p \<noteq> None \<and> map_of fsys p \<noteq> None}"
    unfolding e entry_at_paths[OF d] by auto
  also have "\<dots> = {p. child_name d p \<noteq> None \<and> map_of fsys p \<noteq> None}"
    by (auto simp: map_of_eq_None_iff)
  finally show ?thesis .
qed

lemma candidates_paths:
  assumes "scandir fsys d = Ok entries"
  shows "entry_path ` set (photos_for_removal owned entries) =
     {p. (\<exists>name. child_name d p = Some name) \<and> (\<exists>c. map_of fsys p = Some (RegularFile c)) \<and> p \<notin> owned}"
proof (intro set_eqI iffI)
  fix p
  assume "p \<in> entry_path ` set (photos_for_removal owned entries)"
  then obtain e where e: "e \<in> set entries" "is_file e" "entry_path e \<notin> owned" "p = entry_path e"
    by (auto simp: photos_for_removal_def)
  from scandir_sound[OF assms e(1)] e(2,3,4)
  show "p \<in> {p. (\<exists>name. child_name d p = Some name) \<and> (\<exists>c. map_of fsys p = Some (RegularFile c)) \<and> p \<notin> owned}"
    by (auto simp: is_file_def split: node.splits)
next
  fix p
  assume "p \<in> {p. (\<exists>name. child_name d p = Some name) \<and> (\<exists>c. map_of fsys p = Some (RegularFile c)) \<and> p \<notin> owned}"
  then obtain name c where p: "child_name d p = Some name" "map_of fsys p = Some (RegularFile c)" "p \<notin> owned"
    by auto
  then have "p \<in> entry_path ` set entries" using scandir_paths[OF assms] by auto
  then obtain e where e: "e \<in> set entries" "p = entry_path e" by auto
  from scandir_sound[OF assms e(1)] p e(2) have "is_file e" by (simp add: is_file_def)
  with e p(3) show "p \<in> entry_path ` set (photos_for_removal owned entries)"
    by (auto simp: photos_for_removal_def)
qed

lemma unlink_Ok:
  "unlink fsys p = Ok fsys' \<Longrightarrow> map_of fsys' = (map_of fsys)(p := None)"
  by (auto simp: unlink_def AList.delete_conv' split: option.splits node.splits)

lemma unlink_regular:
  "map_of fsys p = Some (RegularFile c) \<Longrightarrow> unlink fsys p = Ok (AList.delete p fsys)"
  by (simp add: unlink_def)

lemma unlink_all_others:
  "unlink_all es w = (r, w') \<Longrightarrow> p \<notin> entry_path ` set es \<Longrightarrow> map_of (fs w') p = map_of (fs w) p"
proof (induction es arbitrary: w)
  case Nil
  then show ?case by simp
next
  case (Cons e es)
  show ?case
  proof (cases "unlink (fs w) (entry_path e)")
    case (Ok fs')
    with Cons.prems have "unlink_all es (print Dot (w\<lparr>fs := fs'\<rparr>)) = (r, w')" by simp
    from Cons.IH[OF this] Cons.prems(2) unlink_Ok[OF Ok] show ?thesis by simp
  next
    case (Raise err)
    with Cons.prems show ?thesis by simp
  qed
qed

lemma unlink_all_regular:
  "distinct (map entry_path es) \<Longrightarrow>
   \<forall>e\<in>set es. \<exists>c. map_of (fs w) (entry_path e) = Some (RegularFile c) \<Longrightarrow>
   \<exists>w'. unlink_all es w = (Ok (), w')
       \<and> map_of (fs w') = (\<lambda>p. if p \<in> entry_path ` set es then None else map_of (fs w) p)
       \<and> stdout w' = stdout w @ replicate (length es) Dot
       \<and> handles w' = handles w \<and> logged w' = logged w \<and> progress w' = progress w"
proof (induction es arbitrary: w)
  case Nil
  then show ?case by auto
next
  case (Cons e es)
  from Cons.prems(2) obtain c where c: "map_of (fs w) (entry_path e) = Some (RegularFile c)" by auto
  let ?w1 = "print Dot (w\<lparr>fs := AList.delete (entry_path e) (fs w)\<rparr>)"
  have step: "unlink_all (e # es) w = unlink_all es ?w1"
    using unlink_regular[OF c] by simp
  have m1: "map_of (fs ?w1) = (map_of (fs w))(entry_path e := None)"
    by (simp add: AList.delete_conv')
  from Cons.prems(1) have d: "distinct (map entry_path es)" and ne: "entry_path e \<notin> entry_path ` set es"
    by auto
  have "\<forall>e'\<in>set es. \<exists>c. map_of (fs ?w1) (entry_path e') = Some (RegularFile c)"
  proof
    fix e' assume e': "e' \<in> set es"
    then have "entry_path e' \<in> entry_path ` set es" by (rule imageI)
    with ne have "entry_path e' \<noteq> entry_path e" by metis
    moreover from e' Cons.prems(2) obtain c' where "map_of (fs w) (entry_path e') = Some (RegularFile c')"
      by auto
    ultimately show "\<exists>c. map_of (fs ?w1) (entry_path e') = Some (RegularFile c)"
      unfolding m1 by simp
  qed
  from Cons.IH[OF d this] obtain w' where
    w': "unlink_all es ?w1 = (Ok (), w')"
        "map_of (fs w') = (\<lambda>p. if p \<in> entry_path ` set es then None else map_of (fs ?w1) p)"
        "stdout w' = stdout ?w1 @ replicate (length es) Dot"
        "handles w' = handles ?w1" "logged w' = logged ?w1" "progress w' = progress ?w1"
    by blast
  have "map_of (fs w') = (\<lambda>p. if p \<in> entry_path ` set (e # es) then None else map_of (fs w) p)"
    unfolding w'(2) m1 by auto
  moreover have "stdout w' = stdout w @ replicate (length (e # es)) Dot"
    unfolding w'(3) by (simp add: replicate_append_same)
  ultimately show ?case using step w'(1,4,5,6) by simp
qed

lemma fold_log_debug_fields:
  "fs (fold (\<lambda>e. log_debug lvl (f e)) es w) = fs w
 \<and> stdout (fold (\<lambda>e. log_debug lvl (f e)) es w) = stdout w
 \<and> handles (fold (\<lambda>e. log_debug lvl (f e)) es w) = handles w"
  by (induction es arbitrary: w) simp_all

lemma fold_print_fields:
  "fs (fold (\<lambda>e. print (g e)) es w) = fs w
 \<and> stdout (fold (\<lambda>e. print (g e)) es w) = stdout w @ map g es
 \<and> handles (fold (\<lambda>e. print (g e)) es w) = handles w"
  by (induction es arbitrary: w) simp_all

lemma asked_fields:
  "fs (asked lvl cands w) = fs w"
  "stdout (asked lvl cands w) =
     stdout w @ [CheckingMissing, MissingPhotos (length cands)]
       @ map (\<lambda>e. EntryName (entry_name e)) cands @ [ConfirmPrompt]"
  by (simp_all add: asked_def fold_print_fields fold_log_debug_fields)

lemma remove_missing_cases:
  "remove_missing lvl d owned confirm w =
     (case scandir (fs w) d of
        Raise e \<Rightarrow> (Raise e, print CheckingMissing w)
      | Ok entries \<Rightarrow>
          if photos_for_removal owned entries = []
          then (Ok (), print NothingToDo (print CheckingMissing w))
          else (case confirm of
                  Raise e \<Rightarrow> (Raise e, asked lvl (photos_for_removal owned entries) w)
                | Ok True \<Rightarrow>
                    (case unlink_all (photos_for_removal owned entries)
                            (asked lvl (photos_for_removal owned entries) w) of
                       (Raise e, w6) \<Rightarrow> (Raise e, w6)
                     | (Ok u, w6) \<Rightarrow>
                         (Ok (), print (Removed (length (photos_for_removal owned entries))) w6))
                | Ok False \<Rightarrow>
                    (Ok (), log_info lvl AbortRemoval
                              (asked lvl (photos_for_removal owned entries) w))))"
  by (simp add: remove_missing_def asked_def Let_def split: result.splits bool.splits)

lemma candidates_regular:
  assumes "scandir fsys d = Ok entries"
  shows "distinct (map entry_path (photos_for_removal owned entries))
       \<and> (\<forall>e\<in>set (photos_for_removal owned entries).
            \<exists>c. map_of fsys (entry_path e) = Some (RegularFile c))"
proof -
  have "distinct (map entry_path (photos_for_removal owned entries))"
    unfolding photos_for_removal_def using scandir_distinct[OF assms]
    by (simp add: distinct_map_filter)
  moreover have "\<forall>e\<in>set (photos_for_removal owned entries).
            \<exists>c. map_of fsys (entry_path e) = Some (RegularFile c)"
  proof
    fix e assume "e \<in> set (photos_for_removal owned entries)"
    then have e: "e \<in> set entries" "is_file e" by (simp_all add: photos_for_removal_def)
    from scandir_sound[OF assms e(1)] e(2)
    show "\<exists>c. map_of fsys (entry_path e) = Some (RegularFile c)"
      by (auto simp: is_file_def split: node.splits)
  qed
  ultimately show ?thesis by blast
qed

lemma remove_missing_confirmed:
  assumes s: "scandir (fs w) d = Ok entries"
      and r: "remove_missing lvl d owned (Ok True) w = (r, w')"
  shows "r = Ok ()"
    and "map_of (fs w') =
          (\<lambda>p. if p \<in> entry_path ` set (photos_for_removal owned entries) then None
               else map_of (fs w) p)"
    and "photos_for_removal owned entries \<noteq> [] \<Longrightarrow>
          stdout w' = stdout (asked lvl (photos_for_removal owned entries) w)
            @ replicate (length (photos_for_removal owned entries)) Dot
            @ [Removed (length (photos_for_removal owned entries))]"
proof -
  let ?c = "photos_for_removal owned entries"
  from candidates_regular[OF s, of owned]
  have d: "distinct (map entry_path ?c)"
    and f: "\<forall>e\<in>set ?c. \<exists>c. map_of (fs (asked lvl ?c w)) (entry_path e) = Some (RegularFile c)"
    by (simp_all add: asked_fields)
  from unlink_all_regular[OF d f] obtain w6 where
    u: "unlink_all ?c (asked lvl ?c w) = (Ok (), w6)"
    and m0: "map_of (fs w6) =
       (\<lambda>p. if p \<in> entry_path ` set ?c then None else map_of (fs (asked lvl ?c w)) p)"
    and o: "stdout w6 = stdout (asked lvl ?c w) @ replicate (length ?c) Dot"
    by blast
  from m0 have m: "map_of (fs w6) = (\<lambda>p. if p \<in> entry_path ` set ?c then None else map_of (fs w) p)"
    by (simp only: asked_fields(1))
  show "r = Ok ()"
    using r s u by (auto simp: remove_missing_cases split: if_splits)
  show "map_of (fs w') = (\<lambda>p. if p \<in> entry_path ` set ?c then None else map_of (fs w) p)"
  proof (cases "?c = []")
    case True
    with r s show ?thesis by (auto simp: remove_missing_cases)
  next
    case False
    with r s u have "w' = print (Removed (length ?c)) w6" by (auto simp: remove_missing_cases)
    with m show ?thesis by simp
  qed
  show "stdout w' = stdout (asked lvl ?c w) @ replicate (length ?c) Dot @ [Removed (length ?c)]"
    if "?c \<noteq> []"
  proof -
    from that r s u have "w' = print (Removed (length ?c)) w6" by (auto simp: remove_missing_cases)
    with o show ?thesis by simp
  qed
qed

lemma remove_missing_unconfirmed:
  assumes "remove_missing lvl d owned confirm w = (r, w')" and "confirm \<noteq> Ok True"
  shows "fs w' = fs w"
  using assms
  by (auto simp: remove_missing_cases asked_fields split: result.splits if_splits bool.splits)

lemma remove_missing_touches:
  assumes r: "remove_missing lvl d owned confirm w = (r, w')"
      and p: "map_of (fs w') p \<noteq> map_of (fs w) p"
  shows "\<exists>entries. scandir (fs w) d = Ok entries
           \<and> p \<in> entry_path ` set (photos_for_removal owned entries)"
proof (cases "confirm = Ok True")
  case False
  from remove_missing_unconfirmed[OF r False] p show ?thesis by simp
next
  case True
  show ?thesis
  proof (cases "scandir (fs w) d")
    case (Raise e)
    with r p show ?thesis by (auto simp: remove_missing_cases)
  next
    case (Ok entries)
    from remove_missing_confirmed(2)[OF Ok r[unfolded True]] p
    have "p \<in> entry_path ` set (photos_for_removal owned entries)"
      by (auto split: if_splits)
    with Ok show ?thesis by blast
  qed
qed

subsection \<open>The candidates for removal\<close>

text \<open>
  C3. The candidates of \<^verbatim>\<open>remove_missing\<close> are exactly the entries directly in the
  destination that are regular files themselves (not symbolic links, not directories)
  and whose path is not in the ownership set. Whatever the set and the answer,
  \<^verbatim>\<open>remove_missing\<close> leaves every path of the ownership set as it was; a path it
  changes was a candidate and is gone afterwards. When the answer is yes, it removes
  all candidates and nothing else.
\<close>

theorem removal_candidates:
  "(scandir (fs w) d = Ok entries \<longrightarrow>
      entry_path ` set (photos_for_removal owned entries) =
        {p. (\<exists>name. child_name d p = Some name)
          \<and> (\<exists>c. map_of (fs w) p = Some (RegularFile c)) \<and> p \<notin> owned})
 \<and> (remove_missing lvl d owned confirm w = (r, w') \<longrightarrow>
      (\<forall>p\<in>owned. map_of (fs w') p = map_of (fs w) p)
    \<and> (\<forall>p. map_of (fs w') p \<noteq> map_of (fs w) p \<longrightarrow>
           map_of (fs w') p = None \<and> p \<notin> owned
         \<and> (\<exists>name. child_name d p = Some name)
         \<and> (\<exists>c. map_of (fs w) p = Some (RegularFile c))))
 \<and> (scandir (fs w) d = Ok entries \<and> remove_missing lvl d owned (Ok True) w = (r, w') \<longrightarrow>
      r = Ok ()
    \<and> map_of (fs w') =
         (\<lambda>p. if p \<in> entry_path ` set (photos_for_removal owned entries) then None
              else map_of (fs w) p))"
proof (intro conjI impI)
  assume "scandir (fs w) d = Ok entries"
  then show "entry_path ` set (photos_for_removal owned entries) =
        {p. (\<exists>name. child_name d p = Some name)
          \<and> (\<exists>c. map_of (fs w) p = Some (RegularFile c)) \<and> p \<notin> owned}"
    by (rule candidates_paths)
next
  assume a: "scandir (fs w) d = Ok entries \<and> remove_missing lvl d owned (Ok True) w = (r, w')"
  then show "r = Ok ()" using remove_missing_confirmed(1) by blast
  from a show "map_of (fs w') =
         (\<lambda>p. if p \<in> entry_path ` set (photos_for_removal owned entries) then None
              else map_of (fs w) p)"
    using remove_missing_confirmed(2) by blast
next
  assume r: "remove_missing lvl d owned confirm w = (r, w')"
  have changed: "map_of (fs w') p = None \<and> p \<notin> owned
         \<and> (\<exists>name. child_name d p = Some name)
         \<and> (\<exists>c. map_of (fs w) p = Some (RegularFile c))"
    if p: "map_of (fs w') p \<noteq> map_of (fs w) p" for p
  proof -
    from remove_missing_touches[OF r p] obtain entries where
      s: "scandir (fs w) d = Ok entries"
      and c: "p \<in> entry_path ` set (photos_for_removal owned entries)" by blast
    have t: "confirm = Ok True"
    proof (rule ccontr)
      assume "confirm \<noteq> Ok True"
      then have "fs w' = fs w" by (rule remove_missing_unconfirmed[OF r])
      with p show False by simp
    qed
    from remove_missing_confirmed(2)[OF s r[unfolded t]] c
    have "map_of (fs w') p = None" by simp
    with c candidates_paths[OF s, of owned] show ?thesis by auto
  qed
  then show "\<forall>p. map_of (fs w') p \<noteq> map_of (fs w) p \<longrightarrow>
           map_of (fs w') p = None \<and> p \<notin> owned
         \<and> (\<exists>name. child_name d p = Some name)
         \<and> (\<exists>c. map_of (fs w) p = Some (RegularFile c))" by blast
  from changed show "\<forall>p\<in>owned. map_of (fs w') p = map_of (fs w) p" by blast
qed

theorem removal_candidates_witness:
  "scandir (fs linked_world) ''/d'' =
     Ok [\<lparr>entry_name = ''a.jpg'', entry_path = ''/d/a.jpg'', entry_node = RegularFile [1]\<rparr>,
         \<lparr>entry_name = ''b.jpg'', entry_path = ''/d/b.jpg'', entry_node = RegularFile [2]\<rparr>,
         \<lparr>entry_name = ''l.jpg'', entry_path = ''/d/l.jpg'', entry_node = Symlink ''/d/b.jpg''\<rparr>,
         \<lparr>entry_name = ''sub'', entry_path = ''/d/sub'', entry_node = Directory\<rparr>]
 \<and> {''/d/a.jpg''} =
     {p. (\<exists>name. child_name ''/d'' p = Some name)
          \<and> (\<exists>c. map_of (fs linked_world) p = Some (RegularFile c)) \<and> p \<notin> {''/d/b.jpg''}}
 \<and> remove_missing 50 ''/d'' {''/d/b.jpg''} (Ok True) linked_world =
     (Ok (),
      \<lparr>fs = [(''/d'', Directory), (''/d/b.jpg'', RegularFile [2]),
             (''/d/l.jpg'', Symlink ''/d/b.jpg''), (''/d/sub'', Directory),
             (''/d/sub/x.jpg'', RegularFile [3])],
       stdout = [CheckingMissing, MissingPhotos 1, EntryName ''a.jpg'', ConfirmPrompt, Dot, Removed 1],
       logged = [], handles = {#}, progress = []\<rparr>)
 \<and> map_of [(''/d'', Directory), (''/d/b.jpg'', RegularFile [2]),
             (''/d/l.jpg'', Symlink ''/d/b.jpg''), (''/d/sub'', Directory),
             (''/d/sub/x.jpg'', RegularFile [3])] ''/d/b.jpg'' = map_of (fs linked_world) ''/d/b.jpg''"
proof -
  let ?entries = "[\<lparr>entry_name = ''a.jpg'', entry_path = ''/d/a.jpg'', entry_node = RegularFile [1]\<rparr>,
         \<lparr>entry_name = ''b.jpg'', entry_path = ''/d/b.jpg'', entry_node = RegularFile [2]\<rparr>,
         \<lparr>entry_name = ''l.jpg'', entry_path = ''/d/l.jpg'', entry_node = Symlink ''/d/b.jpg''\<rparr>,
         \<lparr>entry_name = ''sub'', entry_path = ''/d/sub'', entry_node = Directory\<rparr>]"
  let ?w' = "\<lparr>fs = [(''/d'', Directory), (''/d/b.jpg'', RegularFile [2]),
             (''/d/l.jpg'', Symlink ''/d/b.jpg''), (''/d/sub'', Directory),
             (''/d/sub/x.jpg'', RegularFile [3])],
       stdout = [CheckingMissing, MissingPhotos 1, EntryName ''a.jpg'', ConfirmPrompt, Dot, Removed 1],
       logged = [], handles = {#}, progress = []\<rparr>"
  have s: "scandir (fs linked_world) ''/d'' = Ok ?entries"
    by (simp add: linked_world_def scandir_def entry_at_def child_name_def path_join_def Let_def)
  have c: "entry_path ` set (photos_for_removal {''/d/b.jpg''} ?entries) = {''/d/a.jpg''}"
    by (simp add: photos_for_removal_def is_file_def)
  have r: "remove_missing 50 ''/d'' {''/d/b.jpg''} (Ok True) linked_world = (Ok (), ?w')"
    by (simp add: eval_defs)
  note t = removal_candidates[where w = linked_world and d = "''/d''" and entries = ?entries
      and owned = "{''/d/b.jpg''}" and lvl = 50 and confirm = "Ok True" and r = "Ok ()" and w' = ?w']
  from t s c have set_eq: "{''/d/a.jpg''} =
     {p. (\<exists>name. child_name ''/d'' p = Some name)
          \<and> (\<exists>c. map_of (fs linked_world) p = Some (RegularFile c)) \<and> p \<notin> {''/d/b.jpg''}}"
    by simp
  from t r have "\<forall>p\<in>{''/d/b.jpg''}. map_of (fs ?w') p = map_of (fs linked_world) p"
    by blast
  then have kept: "map_of [(''/d'', Directory), (''/d/b.jpg'', RegularFile [2]),
             (''/d/l.jpg'', Symlink ''/d/b.jpg''), (''/d/sub'', Directory),
             (''/d/sub/x.jpg'', RegularFile [3])] ''/d/b.jpg'' = map_of (fs linked_world) ''/d/b.jpg''"
    by simp
  from s set_eq r kept show ?thesis by blast
qed

subsection \<open>No removal without confirmation\<close>

text \<open>
  C4. \<^verbatim>\<open>remove_missing\<close> changes the file system only when the confirmation answers
  yes. The confirmation is asked for at most once, and only after the count and the
  names of all candidates have been printed; every dot, printed after an unlink,
  comes after the question. When the answer is no, or the confirmation aborts, the
  file system is as before, however many candidates there are; when there is no
  candidate, or the scan fails, nothing is asked and nothing is removed.
\<close>

theorem removal_needs_confirmation:
  assumes "remove_missing lvl d owned confirm w = (r, w')"
  shows "(confirm \<noteq> Ok True \<longrightarrow> fs w' = fs w)
       \<and> (fs w' \<noteq> fs w \<longrightarrow> confirm = Ok True)
       \<and> (scandir (fs w) d = Raise e \<longrightarrow>
             r = Raise e \<and> fs w' = fs w \<and> stdout w' = stdout w @ [CheckingMissing])
       \<and> (scandir (fs w) d = Ok entries \<and> photos_for_removal owned entries = [] \<longrightarrow>
             r = Ok () \<and> fs w' = fs w
           \<and> stdout w' = stdout w @ [CheckingMissing, NothingToDo])
       \<and> (scandir (fs w) d = Ok entries \<and> photos_for_removal owned entries \<noteq> [] \<longrightarrow>
             (\<exists>rest.
                stdout w' =
                  stdout w @ [CheckingMissing, MissingPhotos (length (photos_for_removal owned entries))]
                    @ map (\<lambda>entry. EntryName (entry_name entry)) (photos_for_removal owned entries)
                    @ [ConfirmPrompt] @ rest
              \<and> ConfirmPrompt \<notin> set rest
              \<and> (confirm = Ok True \<longrightarrow>
                    r = Ok ()
                  \<and> rest = replicate (length (photos_for_removal owned entries)) Dot
                            @ [Removed (length (photos_for_removal owned entries))])
              \<and> (confirm = Ok False \<longrightarrow> r = Ok () \<and> rest = [] \<and> fs w' = fs w)
              \<and> (confirm = Raise e \<longrightarrow> r = Raise e \<and> rest = [] \<and> fs w' = fs w)))"
proof (intro conjI impI)
  show "fs w' = fs w" if "confirm \<noteq> Ok True"
    using remove_missing_unconfirmed[OF assms that] .
  show "confirm = Ok True" if "fs w' \<noteq> fs w"
  proof (rule ccontr)
    assume "confirm \<noteq> Ok True"
    from remove_missing_unconfirmed[OF assms this] that show False by simp
  qed
next
  assume s: "scandir (fs w) d = Raise e"
  with assms show "r = Raise e" "fs w' = fs w" "stdout w' = stdout w @ [CheckingMissing]"
    by (auto simp: remove_missing_cases)
next
  assume s: "scandir (fs w) d = Ok entries \<and> photos_for_removal owned entries = []"
  with assms show "r = Ok ()" "fs w' = fs w" "stdout w' = stdout w @ [CheckingMissing, NothingToDo]"
    by (auto simp: remove_missing_cases)
next
  let ?c = "photos_for_removal owned entries"
  assume s: "scandir (fs w) d = Ok entries \<and> ?c \<noteq> []"
  then have sc: "scandir (fs w) d = Ok entries" and ne: "?c \<noteq> []" by simp_all
  let ?pre = "stdout w @ [CheckingMissing, MissingPhotos (length ?c)]
                @ map (\<lambda>entry. EntryName (entry_name entry)) ?c @ [ConfirmPrompt]"
  have pre: "stdout (asked lvl ?c w) = ?pre" by (simp add: asked_fields)
  show "\<exists>rest. stdout w' = stdout w @ [CheckingMissing, MissingPhotos (length ?c)]
                    @ map (\<lambda>entry. EntryName (entry_name entry)) ?c @ [ConfirmPrompt] @ rest
              \<and> ConfirmPrompt \<notin> set rest
              \<and> (confirm = Ok True \<longrightarrow> r = Ok ()
                  \<and> rest = replicate (length ?c) Dot @ [Removed (length ?c)])
              \<and> (confirm = Ok False \<longrightarrow> r = Ok () \<and> rest = [] \<and> fs w' = fs w)
              \<and> (confirm = Raise e \<longrightarrow> r = Raise e \<and> rest = [] \<and> fs w' = fs w)"
  proof (cases "confirm = Ok True")
    case True
    from remove_missing_confirmed(1)[OF sc assms[unfolded True]]
      remove_missing_confirmed(3)[OF sc assms[unfolded True] ne]
    have "r = Ok ()" and "stdout w' = ?pre @ replicate (length ?c) Dot @ [Removed (length ?c)]"
      by (simp_all add: pre)
    with True show ?thesis
      by (intro exI[of _ "replicate (length ?c) Dot @ [Removed (length ?c)]"]) auto
  next
    case False
    then have cases: "(\<exists>err. confirm = Raise err) \<or> confirm = Ok False"
      by (cases confirm) auto
    from assms sc ne False have "stdout w' = ?pre"
      by (auto simp: remove_missing_cases asked_fields split: result.splits bool.splits)
    moreover from assms sc ne have "confirm = Ok False \<longrightarrow> r = Ok ()"
      and "confirm = Raise e \<longrightarrow> r = Raise e"
      by (auto simp: remove_missing_cases)
    moreover have "fs w' = fs w" using remove_missing_unconfirmed[OF assms False] .
    ultimately show ?thesis using False
      by (intro exI[of _ "[]"]) auto
  qed
qed

theorem removal_needs_confirmation_witness:
  "remove_missing 50 ''/d'' {''/d/b.jpg''} (Ok False) example_world =
     (Ok (),
      \<lparr>fs = [(''/d'', Directory), (''/d/a.jpg'', RegularFile [1]), (''/d/b.jpg'', RegularFile [2])],
       stdout = [CheckingMissing, MissingPhotos 1, EntryName ''a.jpg'', ConfirmPrompt],
       logged = [], handles = {#}, progress = []\<rparr>)
 \<and> Ok False \<noteq> Ok True
 \<and> [(''/d'', Directory), (''/d/a.jpg'', RegularFile [1]), (''/d/b.jpg'', RegularFile [2])] =
     fs example_world
 \<and> photos_for_removal {''/d/b.jpg''}
      [\<lparr>entry_name = ''a.jpg'', entry_path = ''/d/a.jpg'', entry_node = RegularFile [1]\<rparr>,
       \<lparr>entry_name = ''b.jpg'', entry_path = ''/d/b.jpg'', entry_node = RegularFile [2]\<rparr>] \<noteq> []
 \<and> remove_missing 50 ''/d'' {''/d/b.jpg''} (Ok True) example_world =
     (Ok (),
      \<lparr>fs = [(''/d'', Directory), (''/d/b.jpg'', RegularFile [2])],
       stdout = [CheckingMissing, MissingPhotos 1, EntryName ''a.jpg'', ConfirmPrompt, Dot, Removed 1],
       logged = [], handles = {#}, progress = []\<rparr>)
 \<and> remove_missing 50 ''/d'' {''/d/a.jpg'', ''/d/b.jpg''} (Ok True) example_world =
     (Ok (),
      \<lparr>fs = [(''/d'', Directory), (''/d/a.jpg'', RegularFile [1]), (''/d/b.jpg'', RegularFile [2])],
       stdout = [CheckingMissing, NothingToDo],
       logged = [], handles = {#}, progress = []\<rparr>)"
proof -
  let ?entries = "[\<lparr>entry_name = ''a.jpg'', entry_path = ''/d/a.jpg'', entry_node = RegularFile [1]\<rparr>,
       \<lparr>entry_name = ''b.jpg'', entry_path = ''/d/b.jpg'', entry_node = RegularFile [2]\<rparr>]"
  let ?wn = "\<lparr>fs = [(''/d'', Directory), (''/d/a.jpg'', RegularFile [1]), (''/d/b.jpg'', RegularFile [2])],
       stdout = [CheckingMissing, MissingPhotos 1, EntryName ''a.jpg'', ConfirmPrompt],
       logged = [], handles = {#}, progress = []\<rparr>"
  have no: "remove_missing 50 ''/d'' {''/d/b.jpg''} (Ok False) example_world = (Ok (), ?wn)"
    by (simp add: eval_defs)
  have yes: "remove_missing 50 ''/d'' {''/d/b.jpg''} (Ok True) example_world =
     (Ok (),
      \<lparr>fs = [(''/d'', Directory), (''/d/b.jpg'', RegularFile [2])],
       stdout = [CheckingMissing, MissingPhotos 1, EntryName ''a.jpg'', ConfirmPrompt, Dot, Removed 1],
       logged = [], handles = {#}, progress = []\<rparr>)"
    by (simp add: eval_defs)
  have none: "remove_missing 50 ''/d'' {''/d/a.jpg'', ''/d/b.jpg''} (Ok True) example_world =
     (Ok (),
      \<lparr>fs = [(''/d'', Directory), (''/d/a.jpg'', RegularFile [1]), (''/d/b.jpg'', RegularFile [2])],
       stdout = [CheckingMissing, NothingToDo],
       logged = [], handles = {#}, progress = []\<rparr>)"
    by (simp add: eval_defs)
  have c: "photos_for_removal {''/d/b.jpg''} ?entries \<noteq> []"
    by (simp add: photos_for_removal_def is_file_def)
  have ne: "Ok False \<noteq> Ok True" by simp
  from removal_needs_confirmation[OF no] ne have "fs ?wn = fs example_world" by blast
  then have kept: "[(''/d'', Directory), (''/d/a.jpg'', RegularFile [1]), (''/d/b.jpg'', RegularFile [2])] =
     fs example_world" by simp
  from no ne kept c yes none show ?thesis by blast
qed

end
